theory Spec2Isabelle
  imports Main "HOL-Library.Word"
begin

unbundle bit_operations_syntax

section \<open>Conventions of the embedding\<close>

text \<open>
  The kernel targets 32-bit x86: \<^verbatim>\<open>unsigned long\<close>, \<^verbatim>\<open>unsigned int\<close>, \<^verbatim>\<open>uint32_t\<close>
  and \<^verbatim>\<open>time_t\<close> are 32-bit unsigned words, \<^verbatim>\<open>int\<close> is their two's complement reading.
  \<^verbatim>\<open>kernel_panic\<close> and a failed \<^verbatim>\<open>assert\<close> stop the kernel: both are the error value
  \<open>Panic\<close> with the message of the source. Dereferencing the null pointer that
  \<^verbatim>\<open>bb_alloc_pages\<close> or \<^verbatim>\<open>list_head_pop\<close> may return is the error \<open>NullDeref\<close>.
\<close>

type_synonym u32 = "32 word"

datatype error = Panic string | NullDeref

section \<open>Buddy system: \<^verbatim>\<open>buddysystem.c\<close>\<close>

subsection \<open>Data\<close>

text \<open>
  A page descriptor is addressed by its index from \<^verbatim>\<open>instance->base_page\<close> (the stride
  \<^verbatim>\<open>pgs_size\<close> and the byte offsets are pointer arithmetic around that index), and the
  descriptor memory is a function from indices to descriptors. An intrusive circular
  \<^verbatim>\<open>list_head\<close> list is the list of the indices of the descriptors linked in it, first
  element after the head first. \<^verbatim>\<open>location.siblings\<close> and \<^verbatim>\<open>location.cache\<close> are the one
  link of a descriptor. The build constants \<^verbatim>\<open>MAX_BUDDYSYSTEM_GFP_ORDER\<close> and
  \<^verbatim>\<open>PAGE_SIZE\<close> come from headers; they are the parameters \<open>M\<close> and \<open>PS\<close> below.
\<close>

record bb_page =
  flags :: u32
  order :: nat

record bb_free_area =
  free_list :: "nat list"
  nr_free :: u32

record bb_instance =
  free_area :: "nat \<Rightarrow> bb_free_area"
  free_pages_cache_list :: "nat list"
  free_pages_cache_size :: u32
  size_pgs :: u32
  pages :: "nat \<Rightarrow> bb_page"

definition LOW_WATERMARK_LEVEL :: u32 where
  "LOW_WATERMARK_LEVEL = 10"

definition HIGH_WATERMARK_LEVEL :: u32 where
  "HIGH_WATERMARK_LEVEL = 70"

definition MID_WATERMARK_LEVEL :: u32 where
  "MID_WATERMARK_LEVEL = (LOW_WATERMARK_LEVEL + HIGH_WATERMARK_LEVEL) div 2"

definition FREE_PAGE :: nat where
  "FREE_PAGE = 0"

definition ROOT_PAGE :: nat where
  "ROOT_PAGE = 1"

subsection \<open>Flag and index helpers\<close>

text \<open>\<^verbatim>\<open>set_bit\<close>, \<^verbatim>\<open>clear_bit\<close> and \<^verbatim>\<open>test_bit\<close> on the \<^verbatim>\<open>flags\<close> word.\<close>

definition bb_set_flag :: "bb_page \<Rightarrow> nat \<Rightarrow> bb_page" where
  "bb_set_flag page flag = page\<lparr>flags := flags page OR push_bit flag 1\<rparr>"

definition bb_clear_flag :: "bb_page \<Rightarrow> nat \<Rightarrow> bb_page" where
  "bb_clear_flag page flag = page\<lparr>flags := flags page AND NOT (push_bit flag 1)\<rparr>"

definition bb_test_flag :: "bb_page \<Rightarrow> nat \<Rightarrow> bool" where
  "bb_test_flag page flag = (flags page AND push_bit flag 1 \<noteq> 0)"

definition get_buddy_at_index :: "nat \<Rightarrow> nat \<Rightarrow> nat" where
  "get_buddy_at_index page_idx ord = page_idx XOR push_bit ord 1"

definition get_area_of_order :: "bb_instance \<Rightarrow> nat \<Rightarrow> bb_free_area" where
  "get_area_of_order instance ord = free_area instance ord"

definition page_is_buddy :: "bb_page \<Rightarrow> nat \<Rightarrow> bool" where
  "page_is_buddy page ord = (bb_test_flag page FREE_PAGE \<and> order page = ord)"

subsection \<open>Writes through a pointer, and the list primitive\<close>

definition upd_page :: "nat \<Rightarrow> (bb_page \<Rightarrow> bb_page) \<Rightarrow> bb_instance \<Rightarrow> bb_instance" where
  "upd_page p f instance = instance\<lparr>pages := (pages instance)(p := f (pages instance p))\<rparr>"

definition upd_area :: "nat \<Rightarrow> (bb_free_area \<Rightarrow> bb_free_area) \<Rightarrow> bb_instance \<Rightarrow> bb_instance" where
  "upd_area k f instance =
     instance\<lparr>free_area := (free_area instance)(k := f (free_area instance k))\<rparr>"

definition list_head_empty :: "nat list \<Rightarrow> bool" where
  "list_head_empty l = (l = [])"

text \<open>
  \<^verbatim>\<open>list_head_remove(&page->location.siblings)\<close> unlinks the descriptor from the list it
  is linked in, whichever that is, and does nothing to a descriptor linked nowhere.
\<close>

definition list_head_remove :: "nat \<Rightarrow> bb_instance \<Rightarrow> bb_instance" where
  "list_head_remove p instance =
     instance\<lparr>free_area := (\<lambda>k. (free_area instance k)
                   \<lparr>free_list := removeAll p (free_list (free_area instance k))\<rparr>),
              free_pages_cache_list := removeAll p (free_pages_cache_list instance)\<rparr>"

text \<open>\<^verbatim>\<open>list_head_insert_after(new, head)\<close> links at the front, \<^verbatim>\<open>list_head_insert_before\<close> at the back.\<close>

definition area_insert_after :: "nat \<Rightarrow> bb_free_area \<Rightarrow> bb_free_area" where
  "area_insert_after p area = area\<lparr>free_list := p # free_list area\<rparr>"

definition area_insert_before :: "nat \<Rightarrow> bb_free_area \<Rightarrow> bb_free_area" where
  "area_insert_before p area = area\<lparr>free_list := free_list area @ [p]\<rparr>"

definition nr_free_inc :: "bb_free_area \<Rightarrow> bb_free_area" where
  "nr_free_inc area = area\<lparr>nr_free := nr_free area + 1\<rparr>"

definition nr_free_dec :: "bb_free_area \<Rightarrow> bb_free_area" where
  "nr_free_dec area = area\<lparr>nr_free := nr_free area - 1\<rparr>"

subsection \<open>\<^verbatim>\<open>bb_alloc_pages\<close>\<close>

text \<open>
  The \<^verbatim>\<open>while (current_order > order)\<close> loop: the upper half of the block goes to the
  free list of the lower order.
\<close>

fun alloc_split :: "bb_instance \<Rightarrow> nat \<Rightarrow> nat \<Rightarrow> nat \<Rightarrow> nat \<Rightarrow> error + bb_instance" where
  "alloc_split instance page current_order ord sz =
     (if current_order > ord then
        (let current_order' = current_order - 1;
             sz' = sz div 2;
             buddy = page + sz'
         in if \<not> (bb_test_flag (pages instance buddy) FREE_PAGE
                   \<and> \<not> bb_test_flag (pages instance buddy) ROOT_PAGE)
            then Inl (Panic ''__bb_test_flag(buddy, FREE_PAGE) && !__bb_test_flag(buddy, ROOT_PAGE)'')
            else alloc_split
                   (upd_area current_order' nr_free_inc
                     (upd_area current_order' (area_insert_after buddy)
                       (upd_page buddy (\<lambda>b. bb_set_flag (b\<lparr>order := current_order'\<rparr>) ROOT_PAGE)
                          instance)))
                   page current_order' ord sz')
      else Inr instance)"

declare alloc_split.simps [simp del]

text \<open>
  The result is the returned pointer (\<open>None\<close> is \<^verbatim>\<open>NULL\<close>) and the instance after the call.
  The \<^verbatim>\<open>for\<close> loop is the search for the first order from \<^verbatim>\<open>order\<close> up whose list is not
  empty; the list found there has a first element, so the empty case below is never taken.
\<close>

definition bb_alloc_pages :: "nat \<Rightarrow> bb_instance \<Rightarrow> nat \<Rightarrow> error + (nat option \<times> bb_instance)" where
  "bb_alloc_pages M instance ord =
     (case find (\<lambda>k. \<not> list_head_empty (free_list (get_area_of_order instance k))) [ord..<M] of
        None \<Rightarrow> Inr (None, instance)
      | Some current_order \<Rightarrow>
          (case free_list (get_area_of_order instance current_order) of
             [] \<Rightarrow> Inr (None, instance)
           | page # _ \<Rightarrow>
               (let inst1 = upd_area current_order nr_free_dec (list_head_remove page instance)
                in if \<not> (bb_test_flag (pages inst1 page) FREE_PAGE
                          \<and> bb_test_flag (pages inst1 page) ROOT_PAGE)
                   then Inl (Panic ''__bb_test_flag(page, FREE_PAGE) && __bb_test_flag(page, ROOT_PAGE)'')
                   else
                     (case alloc_split (upd_page page (\<lambda>p. bb_clear_flag p FREE_PAGE) inst1)
                             page current_order ord (push_bit current_order 1) of
                        Inl e \<Rightarrow> Inl e
                      | Inr inst2 \<Rightarrow>
                          Inr (Some page, upd_page page (\<lambda>p. p\<lparr>order := ord\<rparr>) inst2)))))"

subsection \<open>\<^verbatim>\<open>bb_free_pages\<close>\<close>

text \<open>
  The \<^verbatim>\<open>while (order < MAX_BUDDYSYSTEM_GFP_ORDER - 1)\<close> loop; it returns the instance,
  \<^verbatim>\<open>page_idx\<close> and \<^verbatim>\<open>order\<close> at its exit.
\<close>

function free_merge :: "nat \<Rightarrow> bb_instance \<Rightarrow> nat \<Rightarrow> nat \<Rightarrow> bb_instance \<times> nat \<times> nat" where
  "free_merge M instance page_idx ord =
     (if ord < M - 1 then
        (let buddy_idx = get_buddy_at_index page_idx ord
         in if \<not> page_is_buddy (pages instance buddy_idx) ord
            then (instance, page_idx, ord)
            else free_merge M
                   (upd_page page_idx (\<lambda>p. bb_clear_flag p ROOT_PAGE)
                     (upd_page buddy_idx (\<lambda>b. bb_clear_flag b ROOT_PAGE)
                       (upd_area ord nr_free_dec
                         (list_head_remove buddy_idx instance))))
                   (page_idx AND buddy_idx) (ord + 1))
      else (instance, page_idx, ord))"
  by pat_completeness auto
termination
  by (relation "measure (\<lambda>(M, instance, page_idx, ord). M - ord)") auto

declare free_merge.simps [simp del]

definition bb_free_pages :: "nat \<Rightarrow> bb_instance \<Rightarrow> nat \<Rightarrow> error + bb_instance" where
  "bb_free_pages M instance page =
     (if bb_test_flag (pages instance page) FREE_PAGE
         \<or> \<not> bb_test_flag (pages instance page) ROOT_PAGE
      then Inl (Panic ''Double deallocation in buddy system!'')
      else
        (case free_merge M (upd_page page (\<lambda>p. bb_set_flag p FREE_PAGE) instance)
                page (order (pages instance page)) of
           (inst1, page_idx, ord) \<Rightarrow>
             Inr (upd_area ord (area_insert_after page_idx)
                   (upd_page page_idx
                      (\<lambda>p. (bb_set_flag (bb_set_flag p ROOT_PAGE) ROOT_PAGE)\<lparr>order := ord\<rparr>)
                      inst1))))"

subsection \<open>\<^verbatim>\<open>buddy_system_init\<close>\<close>

text \<open>
  The instance passed in is the memory as it is before the call; the descriptors keep the
  \<^verbatim>\<open>order\<close> they had unless they become the head of a block. The last loop is compared in
  descriptor indices: the source compares \<^verbatim>\<open>page + block_size\<close> in units of
  \<^verbatim>\<open>sizeof(bb_page_t)\<close> and advances by the stride, which takes the same iterations when
  the final assertion holds.
\<close>

function init_blocks :: "bb_instance \<Rightarrow> nat \<Rightarrow> nat \<Rightarrow> nat \<Rightarrow> bb_instance \<times> nat" where
  "init_blocks instance page last_page max_order =
     (let block_size = push_bit max_order (1::nat)
      in if page + block_size \<le> last_page then
           init_blocks
             (upd_area max_order nr_free_inc
               (upd_area max_order (area_insert_before page)
                 (upd_page page (\<lambda>p. bb_set_flag (p\<lparr>order := max_order\<rparr>) ROOT_PAGE) instance)))
             (page + block_size) last_page max_order
         else (instance, page))"
  by pat_completeness auto
termination
proof (relation "measure (\<lambda>(instance, page, last_page, max_order). Suc last_page - page)")
  show "wf (measure (\<lambda>(instance, page, last_page, max_order). Suc last_page - page))"
    by simp
next
  fix inst :: bb_instance and page last_page max_order block_size :: nat
  assume bs: "block_size = push_bit max_order 1" and le: "page + block_size \<le> last_page"
  have pos: "0 < block_size"
    by (simp add: bs push_bit_eq_mult)
  have "Suc last_page - (page + block_size) < Suc last_page - page"
    using le pos by linarith
  then show
    "((upd_area max_order nr_free_inc
        (upd_area max_order (area_insert_before page)
          (upd_page page (\<lambda>p. bb_set_flag (p\<lparr>order := max_order\<rparr>) ROOT_PAGE) inst)),
       page + block_size, last_page, max_order),
      (inst, page, last_page, max_order))
     \<in> measure (\<lambda>(instance, page, last_page, max_order). Suc last_page - page)"
    by simp
qed

declare init_blocks.simps [simp del]

definition buddy_system_init :: "nat \<Rightarrow> bb_instance \<Rightarrow> u32 \<Rightarrow> error + bb_instance" where
  "buddy_system_init M instance pages_count =
     (let inst1 = instance\<lparr>size_pgs := pages_count\<rparr>;
          inst2 = fold (\<lambda>index. upd_page index (\<lambda>p. bb_set_flag (p\<lparr>flags := 0\<rparr>) FREE_PAGE))
                    [0..<unat pages_count] inst1;
          inst3 = fold (\<lambda>ord. upd_area ord (\<lambda>a. a\<lparr>nr_free := 0, free_list := []\<rparr>)) [0..<M] inst2;
          last_page = unat (size_pgs inst3);
          max_order = M - 1
      in case init_blocks inst3 0 last_page max_order of
           (inst4, page) \<Rightarrow>
             if page = last_page then Inr inst4
             else Inl (Panic ''Memory size is not aligned to MAX_ORDER size!''))"

subsection \<open>Introspection\<close>

definition buddy_system_get_total_space :: "u32 \<Rightarrow> bb_instance \<Rightarrow> u32" where
  "buddy_system_get_total_space PS instance = size_pgs instance * PS"

definition buddy_system_get_free_space :: "nat \<Rightarrow> u32 \<Rightarrow> bb_instance \<Rightarrow> u32" where
  "buddy_system_get_free_space M PS instance =
     fold (\<lambda>ord sz. sz + nr_free (free_area instance ord) * push_bit ord 1 * PS) [0..<M] 0"

definition buddy_system_get_cached_space :: "nat \<Rightarrow> u32 \<Rightarrow> bb_instance \<Rightarrow> u32" where
  "buddy_system_get_cached_space M PS instance =
     fold (\<lambda>ord sz. sz + free_pages_cache_size instance * PS) [0..<M] 0"

subsection \<open>The single-page cache\<close>

text \<open>\<^verbatim>\<open>list_head_pop\<close> unlinks and returns the first element, or returns \<^verbatim>\<open>NULL\<close>.\<close>

definition list_head_pop :: "nat list \<Rightarrow> nat option \<times> nat list" where
  "list_head_pop l = (case l of [] \<Rightarrow> (None, []) | p # rest \<Rightarrow> (Some p, rest))"

fun cache_extend :: "nat \<Rightarrow> bb_instance \<Rightarrow> nat \<Rightarrow> error + bb_instance" where
  "cache_extend M instance 0 = Inr instance"
| "cache_extend M instance (Suc n) =
     (case bb_alloc_pages M instance 0 of
        Inl e \<Rightarrow> Inl e
      | Inr (None, inst1) \<Rightarrow> Inl NullDeref
      | Inr (Some page, inst1) \<Rightarrow>
          cache_extend M
            (inst1\<lparr>free_pages_cache_list := page # free_pages_cache_list inst1,
                   free_pages_cache_size := free_pages_cache_size inst1 + 1\<rparr>) n)"

fun cache_shrink :: "nat \<Rightarrow> bb_instance \<Rightarrow> nat \<Rightarrow> error + bb_instance" where
  "cache_shrink M instance 0 = Inr instance"
| "cache_shrink M instance (Suc n) =
     (case list_head_pop (free_pages_cache_list instance) of
        (None, _) \<Rightarrow> Inl NullDeref
      | (Some page, rest) \<Rightarrow>
          (case bb_free_pages M (instance\<lparr>free_pages_cache_list := rest\<rparr>) page of
             Inl e \<Rightarrow> Inl e
           | Inr inst1 \<Rightarrow>
               cache_shrink M
                 (inst1\<lparr>free_pages_cache_size := free_pages_cache_size inst1 - 1\<rparr>) n))"

text \<open>
  The \<^verbatim>\<open>uint32_t\<close> count is passed as an \<^verbatim>\<open>int\<close>: the loops run \<open>nat (sint count)\<close> times.
  When the cache list is empty \<^verbatim>\<open>__cached_alloc\<close> returns the \<^verbatim>\<open>list_entry\<close> of the
  \<^verbatim>\<open>NULL\<close> that \<^verbatim>\<open>list_head_pop\<close> gave it, a pointer to no descriptor: the result \<open>None\<close>.
\<close>

definition cached_alloc :: "nat \<Rightarrow> bb_instance \<Rightarrow> error + (nat option \<times> bb_instance)" where
  "cached_alloc M instance =
     (case (if free_pages_cache_size instance < LOW_WATERMARK_LEVEL
            then cache_extend M instance
                   (nat (sint (MID_WATERMARK_LEVEL - free_pages_cache_size instance)))
            else Inr instance) of
        Inl e \<Rightarrow> Inl e
      | Inr inst1 \<Rightarrow>
          (case list_head_pop (free_pages_cache_list inst1) of
             (page, rest) \<Rightarrow> Inr (page, inst1\<lparr>free_pages_cache_list := rest\<rparr>)))"

definition cached_free :: "nat \<Rightarrow> bb_instance \<Rightarrow> nat \<Rightarrow> error + bb_instance" where
  "cached_free M instance page =
     (let inst1 = instance\<lparr>free_pages_cache_list := page # free_pages_cache_list instance\<rparr>
      in if free_pages_cache_size inst1 > HIGH_WATERMARK_LEVEL
         then cache_shrink M inst1
                (nat (sint (free_pages_cache_size inst1 - MID_WATERMARK_LEVEL)))
         else Inr inst1)"

definition bb_alloc_page_cached :: "nat \<Rightarrow> bb_instance \<Rightarrow> error + (nat option \<times> bb_instance)" where
  "bb_alloc_page_cached M instance = cached_alloc M instance"

definition bb_free_page_cached :: "nat \<Rightarrow> bb_instance \<Rightarrow> nat \<Rightarrow> error + bb_instance" where
  "bb_free_page_cached M instance page = cached_free M instance page"

section \<open>Scheduler: \<^verbatim>\<open>scheduler_algorithm.c\<close>\<close>

subsection \<open>Data\<close>

text \<open>
  The run queue is the circular list \<^verbatim>\<open>runqueue->queue\<close> of the \<^verbatim>\<open>run_list\<close> links of
  the tasks: \<open>queue\<close> lists the tasks in link order from the head, and a task pointer is
  the position of the task in that list (\<open>None\<close> is \<^verbatim>\<open>NULL\<close>). \<open>curr\<close> is the position of
  the running task, which is linked in the queue. The fields of \<^verbatim>\<open>task_struct\<close> and of
  its \<^verbatim>\<open>sched_entity\<close> are those the file reads or writes; \<^verbatim>\<open>time_t\<close> is unsigned.
\<close>

record sched_entity =
  prio :: u32
  exec_start :: u32
  exec_runtime :: u32
  sum_exec_runtime :: u32
  vruntime :: u32
  period :: u32
  deadline :: u32
  next_period :: u32
  is_periodic :: bool
  is_under_analysis :: bool
  executed :: bool

record task_struct =
  state :: u32
  se :: sched_entity

record runqueue =
  queue :: "task_struct list"
  curr :: nat

definition TASK_RUNNING :: u32 where
  "TASK_RUNNING = 0"

definition UINT_MAX :: u32 where
  "UINT_MAX = 4294967295"

text \<open>
  What the file takes from other files: the tick counter (one value for the whole call,
  which runs with interrupts masked), the weight table of \<^verbatim>\<open>prio.h\<close>, the profiling
  timer update, and the double-precision product
  \<^verbatim>\<open>(int)(((double)exec_runtime) * (((double)NICE_0_LOAD) / ((double)weight)))\<close>
  as a function of \<^verbatim>\<open>exec_runtime\<close> and \<^verbatim>\<open>weight\<close>.
\<close>

record sched_env =
  timer_get_ticks :: u32
  GET_WEIGHT :: "u32 \<Rightarrow> u32"
  NICE_0_LOAD :: u32
  update_process_profiling_timer :: "task_struct \<Rightarrow> task_struct"
  weighted_delta :: "u32 \<Rightarrow> u32 \<Rightarrow> u32"

text \<open>The build-time selection of \<^verbatim>\<open>scheduler_pick_next_task\<close>.\<close>

datatype policy =
  SCHEDULER_RR | SCHEDULER_PRIORITY | SCHEDULER_CFS | SCHEDULER_EDF
  | SCHEDULER_RM | SCHEDULER_AEDF | SCHEDULER_LLF

subsection \<open>List traversal\<close>

text \<open>
  A list position \<^verbatim>\<open>it\<close> is the head \<^verbatim>\<open>&runqueue->queue\<close> or the link of a task.
  \<^verbatim>\<open>list_for_each_decl(it, head)\<close> visits the positions after \<^verbatim>\<open>head\<close> up to, and
  without, \<^verbatim>\<open>head\<close> itself.
\<close>

datatype node = Head | Entry nat

definition for_each_from_curr :: "runqueue \<Rightarrow> node list" where
  "for_each_from_curr runqueue =
     map Entry [Suc (curr runqueue)..<length (queue runqueue)] @ [Head]
       @ map Entry [0..<curr runqueue]"

definition for_each_from_queue :: "runqueue \<Rightarrow> node list" where
  "for_each_from_queue runqueue = map Entry [0..<length (queue runqueue)]"

text \<open>\<^verbatim>\<open>list_head_size(&runqueue->curr->run_list)\<close>: the links of the ring other than \<^verbatim>\<open>curr\<close>'s.\<close>

definition list_head_size :: "runqueue \<Rightarrow> nat" where
  "list_head_size runqueue = length (for_each_from_curr runqueue)"

definition is_periodic_task :: "task_struct \<Rightarrow> bool" where
  "is_periodic_task task = (is_periodic (se task) \<and> \<not> is_under_analysis (se task))"

subsection \<open>Round-Robin, Priority, CFS\<close>

fun rr_loop :: "task_struct list \<Rightarrow> bool \<Rightarrow> node list \<Rightarrow> nat option" where
  "rr_loop q skip_periodic [] = None"
| "rr_loop q skip_periodic (Head # its) = rr_loop q skip_periodic its"
| "rr_loop q skip_periodic (Entry i # its) =
     (if state (q ! i) \<noteq> TASK_RUNNING then rr_loop q skip_periodic its
      else if is_periodic_task (q ! i) \<and> skip_periodic then rr_loop q skip_periodic its
      else Some i)"

definition scheduler_rr :: "runqueue \<Rightarrow> bool \<Rightarrow> nat option" where
  "scheduler_rr runqueue skip_periodic =
     (if list_head_size runqueue \<le> 1 then Some (curr runqueue)
      else rr_loop (queue runqueue) skip_periodic (for_each_from_curr runqueue))"

fun priority_loop :: "task_struct list \<Rightarrow> bool \<Rightarrow> node list \<Rightarrow> nat \<times> u32 \<Rightarrow> nat \<times> u32" where
  "priority_loop q skip_periodic [] (next, minv) = (next, minv)"
| "priority_loop q skip_periodic (Head # its) (next, minv) =
     priority_loop q skip_periodic its (next, minv)"
| "priority_loop q skip_periodic (Entry i # its) (next, minv) =
     (if state (q ! i) \<noteq> TASK_RUNNING then priority_loop q skip_periodic its (next, minv)
      else if is_periodic_task (q ! i) \<and> skip_periodic
        then priority_loop q skip_periodic its (next, minv)
      else if prio (se (q ! i)) \<le> minv
        then priority_loop q skip_periodic its (i, prio (se (q ! i)))
      else priority_loop q skip_periodic its (next, minv))"

text \<open>The first argument says whether \<^verbatim>\<open>SCHEDULER_PRIORITY\<close> is defined.\<close>

definition scheduler_priority :: "bool \<Rightarrow> runqueue \<Rightarrow> bool \<Rightarrow> nat option" where
  "scheduler_priority priority_defined runqueue skip_periodic =
     (if priority_defined then
        (if list_head_size runqueue \<le> 1 then Some (curr runqueue)
         else Some (fst (priority_loop (queue runqueue) skip_periodic
                           (for_each_from_curr runqueue)
                           (0, prio (se (queue runqueue ! 0))))))
      else scheduler_rr runqueue skip_periodic)"

fun cfs_loop :: "task_struct list \<Rightarrow> bool \<Rightarrow> node list \<Rightarrow> nat \<times> u32 \<Rightarrow> nat \<times> u32" where
  "cfs_loop q skip_periodic [] (next, minv) = (next, minv)"
| "cfs_loop q skip_periodic (Head # its) (next, minv) = cfs_loop q skip_periodic its (next, minv)"
| "cfs_loop q skip_periodic (Entry i # its) (next, minv) =
     (if state (q ! i) \<noteq> TASK_RUNNING then cfs_loop q skip_periodic its (next, minv)
      else if is_periodic_task (q ! i) \<and> skip_periodic
        then cfs_loop q skip_periodic its (next, minv)
      else if vruntime (se (q ! i)) < minv
        then cfs_loop q skip_periodic its (i, vruntime (se (q ! i)))
      else cfs_loop q skip_periodic its (next, minv))"

text \<open>
  \<^verbatim>\<open>next\<close> starts as the entry of \<^verbatim>\<open>runqueue->queue.next\<close>, the task at position 0, and
  \<^verbatim>\<open>min\<close> as its \<^verbatim>\<open>vruntime\<close>; both are read only when more than one task is linked.
\<close>

definition scheduler_cfs :: "runqueue \<Rightarrow> bool \<Rightarrow> nat option" where
  "scheduler_cfs runqueue skip_periodic =
     (if list_head_size runqueue \<le> 1 then Some (curr runqueue)
      else Some (fst (cfs_loop (queue runqueue) skip_periodic
                        (for_each_from_curr runqueue)
                        (0, vruntime (se (queue runqueue ! 0))))))"

subsection \<open>AEDF, EDF, RM, LLF\<close>

fun aedf_loop :: "task_struct list \<Rightarrow> node list \<Rightarrow> nat option \<times> u32 \<Rightarrow> nat option \<times> u32" where
  "aedf_loop q [] (next, next_dl) = (next, next_dl)"
| "aedf_loop q (Head # its) (next, next_dl) = aedf_loop q its (next, next_dl)"
| "aedf_loop q (Entry i # its) (next, next_dl) =
     (if deadline (se (q ! i)) \<noteq> 0 \<and> deadline (se (q ! i)) \<le> next_dl
      then aedf_loop q its (Some i, deadline (se (q ! i)))
      else aedf_loop q its (next, next_dl))"

definition scheduler_aedf :: "runqueue \<Rightarrow> nat option" where
  "scheduler_aedf runqueue =
     (case fst (aedf_loop (queue runqueue) (for_each_from_queue runqueue) (None, UINT_MAX)) of
        None \<Rightarrow> scheduler_cfs runqueue True
      | Some next \<Rightarrow> Some next)"

text \<open>The three assignments of the period rollover, the same in EDF, RM and LLF.\<close>

definition rollover :: "task_struct \<Rightarrow> task_struct" where
  "rollover entry =
     entry\<lparr>se := (se entry)\<lparr>executed := False,
                             deadline := deadline (se entry) + period (se entry),
                             next_period := next_period (se entry) + period (se entry)\<rparr>\<rparr>"

fun edf_loop :: "u32 \<Rightarrow> node list \<Rightarrow> task_struct list \<times> nat option \<times> u32
                   \<Rightarrow> task_struct list \<times> nat option \<times> u32" where
  "edf_loop now [] (q, next, next_dl) = (q, next, next_dl)"
| "edf_loop now (Head # its) (q, next, next_dl) = edf_loop now its (q, next, next_dl)"
| "edf_loop now (Entry i # its) (q, next, next_dl) =
     (if \<not> is_periodic (se (q ! i)) \<or> is_under_analysis (se (q ! i))
        then edf_loop now its (q, next, next_dl)
      else if executed (se (q ! i)) \<and> next_period (se (q ! i)) \<le> now
        then edf_loop now its (q[i := rollover (q ! i)], next, next_dl)
      else if \<not> executed (se (q ! i)) \<and> deadline (se (q ! i)) < next_dl
        then edf_loop now its (q, Some i, deadline (se (q ! i)))
      else edf_loop now its (q, next, next_dl))"

text \<open>The periodic policies return the chosen task and the run queue with the rollovers done.\<close>

definition scheduler_edf :: "sched_env \<Rightarrow> runqueue \<Rightarrow> nat option \<times> runqueue" where
  "scheduler_edf env runqueue =
     (case edf_loop (timer_get_ticks env) (for_each_from_queue runqueue)
             (queue runqueue, None, UINT_MAX) of
        (q, next, next_dl) \<Rightarrow>
          (case next of
             None \<Rightarrow> (scheduler_cfs (runqueue\<lparr>queue := q\<rparr>) True, runqueue\<lparr>queue := q\<rparr>)
           | Some n \<Rightarrow> (Some n, runqueue\<lparr>queue := q\<rparr>)))"

fun rm_loop :: "u32 \<Rightarrow> node list \<Rightarrow> task_struct list \<times> nat option \<times> u32
                  \<Rightarrow> task_struct list \<times> nat option \<times> u32" where
  "rm_loop now [] (q, next, next_np) = (q, next, next_np)"
| "rm_loop now (Head # its) (q, next, next_np) = rm_loop now its (q, next, next_np)"
| "rm_loop now (Entry i # its) (q, next, next_np) =
     (if \<not> is_periodic (se (q ! i)) \<or> is_under_analysis (se (q ! i))
        then rm_loop now its (q, next, next_np)
      else if executed (se (q ! i)) \<and> next_period (se (q ! i)) \<le> now
        then rm_loop now its (q[i := rollover (q ! i)], next, next_np)
      else if \<not> executed (se (q ! i)) \<and> next_period (se (q ! i)) < next_np
        then rm_loop now its (q, Some i, next_period (se (q ! i)))
      else rm_loop now its (q, next, next_np))"

definition scheduler_rm :: "sched_env \<Rightarrow> runqueue \<Rightarrow> nat option \<times> runqueue" where
  "scheduler_rm env runqueue =
     (case rm_loop (timer_get_ticks env) (for_each_from_queue runqueue)
             (queue runqueue, None, UINT_MAX) of
        (q, next, next_np) \<Rightarrow>
          (case next of
             None \<Rightarrow> (scheduler_cfs (runqueue\<lparr>queue := q\<rparr>) True, runqueue\<lparr>queue := q\<rparr>)
           | Some n \<Rightarrow> (Some n, runqueue\<lparr>queue := q\<rparr>)))"

text \<open>
  \<^verbatim>\<open>int this_lax\<close> is the two's complement reading of the unsigned difference. In
  \<^verbatim>\<open>this_lax < min_lax\<close> the right operand is a \<^verbatim>\<open>time_t\<close>, so C converts \<^verbatim>\<open>this_lax\<close>
  back to unsigned and compares unsigned; \<^verbatim>\<open>min_lax = this_lax\<close> converts likewise.
\<close>

definition this_lax :: "u32 \<Rightarrow> task_struct \<Rightarrow> int" where
  "this_lax now entry =
     sint ((deadline (se entry) - now) - sum_exec_runtime (se entry))"

fun llf_loop :: "u32 \<Rightarrow> node list \<Rightarrow> task_struct list \<times> nat option \<times> u32
                   \<Rightarrow> task_struct list \<times> nat option \<times> u32" where
  "llf_loop now [] (q, next, min_lax) = (q, next, min_lax)"
| "llf_loop now (Head # its) (q, next, min_lax) = llf_loop now its (q, next, min_lax)"
| "llf_loop now (Entry i # its) (q, next, min_lax) =
     (if \<not> is_periodic (se (q ! i)) \<or> is_under_analysis (se (q ! i))
        then llf_loop now its (q, next, min_lax)
      else if executed (se (q ! i)) \<and> next_period (se (q ! i)) \<le> now
        then llf_loop now its (q[i := rollover (q ! i)], next, min_lax)
      else if \<not> executed (se (q ! i))
        then (if (word_of_int (this_lax now (q ! i)) :: u32) < min_lax
              then llf_loop now its (q, Some i, word_of_int (this_lax now (q ! i)))
              else llf_loop now its (q, next, min_lax))
      else llf_loop now its (q, next, min_lax))"

definition scheduler_llf :: "sched_env \<Rightarrow> runqueue \<Rightarrow> nat option \<times> runqueue" where
  "scheduler_llf env runqueue =
     (case llf_loop (timer_get_ticks env) (for_each_from_queue runqueue)
             (queue runqueue, None, UINT_MAX) of
        (q, next, min_lax) \<Rightarrow>
          (case next of
             None \<Rightarrow> (scheduler_cfs (runqueue\<lparr>queue := q\<rparr>) True, runqueue\<lparr>queue := q\<rparr>)
           | Some n \<Rightarrow> (Some n, runqueue\<lparr>queue := q\<rparr>)))"

subsection \<open>Statistics and the picker\<close>

definition update_task_statistics :: "sched_env \<Rightarrow> task_struct \<Rightarrow> task_struct" where
  "update_task_statistics env task =
     (let t1 = task\<lparr>se := (se task)\<lparr>exec_runtime := timer_get_ticks env - exec_start (se task)\<rparr>\<rparr>;
          t2 = update_process_profiling_timer env t1;
          t3 = t2\<lparr>se := (se t2)\<lparr>sum_exec_runtime :=
                                   sum_exec_runtime (se t2) + exec_runtime (se t2)\<rparr>\<rparr>
      in if \<not> is_periodic (se t3) then
           (let weight = GET_WEIGHT env (prio (se t3));
                t4 = (if weight \<noteq> NICE_0_LOAD env
                      then t3\<lparr>se := (se t3)\<lparr>exec_runtime :=
                                      weighted_delta env (exec_runtime (se t3)) weight\<rparr>\<rparr>
                      else t3)
            in t4\<lparr>se := (se t4)\<lparr>vruntime := vruntime (se t4) + exec_runtime (se t4)\<rparr>\<rparr>)
         else t3)"

definition updates_statistics :: "policy \<Rightarrow> bool" where
  "updates_statistics p =
     (p = SCHEDULER_CFS \<or> p = SCHEDULER_EDF \<or> p = SCHEDULER_RM
      \<or> p = SCHEDULER_AEDF \<or> p = SCHEDULER_LLF)"

definition dispatch :: "policy \<Rightarrow> sched_env \<Rightarrow> runqueue \<Rightarrow> nat option \<times> runqueue" where
  "dispatch p env runqueue =
     (case p of
        SCHEDULER_RR \<Rightarrow> (scheduler_rr runqueue False, runqueue)
      | SCHEDULER_PRIORITY \<Rightarrow> (scheduler_priority True runqueue False, runqueue)
      | SCHEDULER_CFS \<Rightarrow> (scheduler_cfs runqueue False, runqueue)
      | SCHEDULER_EDF \<Rightarrow> scheduler_edf env runqueue
      | SCHEDULER_RM \<Rightarrow> scheduler_rm env runqueue
      | SCHEDULER_AEDF \<Rightarrow> (scheduler_aedf runqueue, runqueue)
      | SCHEDULER_LLF \<Rightarrow> scheduler_llf env runqueue)"

definition scheduler_pick_next_task ::
    "policy \<Rightarrow> sched_env \<Rightarrow> runqueue \<Rightarrow> error + (nat \<times> runqueue)" where
  "scheduler_pick_next_task p env runqueue =
     (let rq1 = (if updates_statistics p
                 then runqueue\<lparr>queue := (queue runqueue)
                        [curr runqueue := update_task_statistics env (queue runqueue ! curr runqueue)]\<rparr>
                 else runqueue)
      in case dispatch p env rq1 of
           (None, rq2) \<Rightarrow> Inl (Panic ''No valid task selected by the scheduling algorithm.'')
         | (Some next, rq2) \<Rightarrow>
             Inr (next, rq2\<lparr>queue := (queue rq2)
                    [next := (queue rq2 ! next)
                       \<lparr>se := (se (queue rq2 ! next))\<lparr>exec_start := timer_get_ticks env\<rparr>\<rparr>]\<rparr>))"

section \<open>Predicates of the statements\<close>

subsection \<open>Buddy system\<close>

text \<open>
  An interior descriptor of a block has FREE set and ROOT clear. \<open>free_blocks_ok\<close> says of
  every head linked in a free list of order \<open>k\<close> that its \<open>2 ^ k\<close> frames lie inside the
  instance and that the frames after the head are interior descriptors.
\<close>

definition interior_page :: "bb_page \<Rightarrow> bool" where
  "interior_page p = (bb_test_flag p FREE_PAGE \<and> \<not> bb_test_flag p ROOT_PAGE)"

definition free_blocks_ok :: "nat \<Rightarrow> bb_instance \<Rightarrow> bool" where
  "free_blocks_ok M inst =
     list_all (\<lambda>k. list_all (\<lambda>p. p + 2 ^ k \<le> unat (size_pgs inst)
                                 \<and> list_all (\<lambda>j. interior_page (pages inst j)) [Suc p..<p + 2 ^ k])
                       (free_list (free_area inst k)))
       [0..<M]"

text \<open>
  \<open>order0_supply\<close>: the heads linked in the free list of order 0 are pairwise different
  free roots, none of them linked in the cache.
\<close>

definition order0_supply :: "bb_instance \<Rightarrow> bool" where
  "order0_supply inst =
     (distinct (free_list (free_area inst 0))
      \<and> list_all (\<lambda>p. bb_test_flag (pages inst p) FREE_PAGE \<and> bb_test_flag (pages inst p) ROOT_PAGE
                       \<and> p \<notin> set (free_pages_cache_list inst))
           (free_list (free_area inst 0)))"

text \<open>\<open>n\<close> successive calls of \<^verbatim>\<open>bb_alloc_page_cached\<close>, the returned pages dropped.\<close>

fun alloc_cached_n :: "nat \<Rightarrow> nat \<Rightarrow> bb_instance \<Rightarrow> error + bb_instance" where
  "alloc_cached_n M 0 inst = Inr inst"
| "alloc_cached_n M (Suc n) inst =
     (case bb_alloc_page_cached M inst of
        Inl e \<Rightarrow> Inl e
      | Inr (page, inst1) \<Rightarrow> alloc_cached_n M n inst1)"

text \<open>Successive calls of \<^verbatim>\<open>bb_free_page_cached\<close>, one for each page of the list.\<close>

fun free_cached_each :: "nat \<Rightarrow> bb_instance \<Rightarrow> nat list \<Rightarrow> error + bb_instance" where
  "free_cached_each M inst [] = Inr inst"
| "free_cached_each M inst (page # ps) =
     (case bb_free_page_cached M inst page of
        Inl e \<Rightarrow> Inl e
      | Inr inst1 \<Rightarrow> free_cached_each M inst1 ps)"

definition nr_free_vector :: "nat \<Rightarrow> bb_instance \<Rightarrow> u32 list" where
  "nr_free_vector M inst = map (\<lambda>k. nr_free (free_area inst k)) [0..<M]"

definition free_list_vector :: "nat \<Rightarrow> bb_instance \<Rightarrow> nat list list" where
  "free_list_vector M inst = map (\<lambda>k. free_list (free_area inst k)) [0..<M]"

subsection \<open>Scheduler\<close>

text \<open>
  \<open>rollover_due\<close> is the condition under which EDF, RM and LLF roll a period over;
  \<open>rolls_over\<close> names these three policies. \<open>task_after_pick\<close> composes the three writes
  a call of the picker can make to one task: the statistics update (on \<^verbatim>\<open>curr\<close>), the
  rollover, and the stamp of \<^verbatim>\<open>exec_start\<close> (on the chosen task).
\<close>

definition rollover_due :: "u32 \<Rightarrow> task_struct \<Rightarrow> bool" where
  "rollover_due now entry =
     (is_periodic (se entry) \<and> \<not> is_under_analysis (se entry)
      \<and> executed (se entry) \<and> next_period (se entry) \<le> now)"

definition rolls_over :: "policy \<Rightarrow> bool" where
  "rolls_over p = (p = SCHEDULER_EDF \<or> p = SCHEDULER_RM \<or> p = SCHEDULER_LLF)"

definition task_after_pick :: "policy \<Rightarrow> sched_env \<Rightarrow> bool \<Rightarrow> bool \<Rightarrow> task_struct \<Rightarrow> task_struct" where
  "task_after_pick p env is_curr is_next task =
     (let t1 = (if is_curr \<and> updates_statistics p then update_task_statistics env task else task);
          t2 = (if rolls_over p \<and> rollover_due (timer_get_ticks env) t1 then rollover t1 else t1)
      in if is_next then t2\<lparr>se := (se t2)\<lparr>exec_start := timer_get_ticks env\<rparr>\<rparr> else t2)"

section \<open>Scenarios\<close>

text \<open>
  Scenario S1: memory with every list empty and every descriptor zero, initialised with
  \<^verbatim>\<open>MAX_BUDDYSYSTEM_GFP_ORDER = 4\<close> and 8 pages; then one allocation of order 0 (or of
  order 1), then the release of the page allocated at order 0.
\<close>

definition raw_memory :: bb_instance where
  "raw_memory = \<lparr>free_area = (\<lambda>_. \<lparr>free_list = [], nr_free = 0\<rparr>), free_pages_cache_list = [],
           free_pages_cache_size = 0, size_pgs = 0, pages = (\<lambda>_. \<lparr>flags = 0, order = 0\<rparr>)\<rparr>"

definition S1_fresh :: bb_instance where
  "S1_fresh = (case buddy_system_init 4 raw_memory 8 of Inr inst \<Rightarrow> inst | Inl e \<Rightarrow> raw_memory)"

definition S1_after_alloc :: bb_instance where
  "S1_after_alloc = (case bb_alloc_pages 4 S1_fresh 0 of Inr (p, inst) \<Rightarrow> inst | Inl e \<Rightarrow> raw_memory)"

definition S1_after_alloc1 :: bb_instance where
  "S1_after_alloc1 = (case bb_alloc_pages 4 S1_fresh 1 of Inr (p, inst) \<Rightarrow> inst | Inl e \<Rightarrow> raw_memory)"

definition S1_after_free :: bb_instance where
  "S1_after_free = (case bb_free_pages 4 S1_after_alloc 0 of Inr inst \<Rightarrow> inst | Inl e \<Rightarrow> raw_memory)"

text \<open>
  An instance of 8192 pages under \<^verbatim>\<open>MAX_BUDDYSYSTEM_GFP_ORDER = 14\<close> in which every page
  is an allocated block of order 0, except the 40 even pages below 80, which are free
  blocks of order 0; the cache is empty.
\<close>

definition striped_instance :: bb_instance where
  "striped_instance =
     \<lparr>free_area = (\<lambda>k. if k = 0 then \<lparr>free_list = map (\<lambda>i. 2 * i) [0..<40], nr_free = 40\<rparr>
                        else \<lparr>free_list = [], nr_free = 0\<rparr>),
      free_pages_cache_list = [], free_pages_cache_size = 0, size_pgs = 8192,
      pages = (\<lambda>i. if even i \<and> i < 80 then \<lparr>flags = 3, order = 0\<rparr>
                     else \<lparr>flags = 2, order = 0\<rparr>)\<rparr>"

definition striped_after_5 :: bb_instance where
  "striped_after_5 =
     (case alloc_cached_n 14 5 striped_instance of Inr inst \<Rightarrow> inst | Inl e \<Rightarrow> raw_memory)"

text \<open>
  Tasks and run queues. \<open>env_at now\<close> is a tick counter at \<open>now\<close>, every weight equal to
  \<^verbatim>\<open>NICE_0_LOAD\<close> and no profiling timer armed. \<open>S4_runqueue\<close> is scenario S4 behind a
  running aperiodic task; \<open>S4_after_pick\<close> and \<open>S4_after_rr\<close> are the run queue after the
  picker under EDF and under RR. In \<open>late_runqueue\<close> the first task is past its deadline at
  tick 100. In \<open>stopped_first_runqueue\<close> the task linked after the head is not
  \<^verbatim>\<open>TASK_RUNNING\<close> and has the smallest \<^verbatim>\<open>prio\<close> and \<^verbatim>\<open>vruntime\<close> and the only
  deadline. In \<open>lone_runner_runqueue\<close> only \<^verbatim>\<open>curr\<close> is \<^verbatim>\<open>TASK_RUNNING\<close>.
\<close>

definition idle_task :: task_struct where
  "idle_task = \<lparr>state = TASK_RUNNING,
     se = \<lparr>prio = 0, exec_start = 0, exec_runtime = 0, sum_exec_runtime = 0, vruntime = 0,
           period = 0, deadline = 0, next_period = 0,
           is_periodic = False, is_under_analysis = False, executed = False\<rparr>\<rparr>"

definition env_at :: "u32 \<Rightarrow> sched_env" where
  "env_at now = \<lparr>timer_get_ticks = now, GET_WEIGHT = (\<lambda>_. 1024), NICE_0_LOAD = 1024,
     update_process_profiling_timer = (\<lambda>task. task), weighted_delta = (\<lambda>delta weight. delta)\<rparr>"

definition S4_T :: task_struct where
  "S4_T = idle_task\<lparr>se := (se idle_task)\<lparr>period := 100, deadline := 150, next_period := 100,
                                           is_periodic := True, executed := True\<rparr>\<rparr>"

definition S4_runqueue :: runqueue where
  "S4_runqueue = \<lparr>queue = [idle_task, S4_T], curr = 0\<rparr>"

definition S4_after_pick :: runqueue where
  "S4_after_pick =
     \<lparr>queue = [idle_task\<lparr>se := (se idle_task)\<lparr>exec_start := 105, exec_runtime := 105,
                                             sum_exec_runtime := 105, vruntime := 105\<rparr>\<rparr>,
               S4_T\<lparr>se := (se S4_T)\<lparr>deadline := 250, next_period := 200, executed := False\<rparr>\<rparr>],
      curr = 0\<rparr>"

definition S4_after_rr :: runqueue where
  "S4_after_rr = \<lparr>queue = [idle_task, S4_T\<lparr>se := (se S4_T)\<lparr>exec_start := 105\<rparr>\<rparr>], curr = 0\<rparr>"

definition periodic_task :: "u32 \<Rightarrow> u32 \<Rightarrow> task_struct" where
  "periodic_task dl sum_exec =
     idle_task\<lparr>se := (se idle_task)\<lparr>deadline := dl, sum_exec_runtime := sum_exec,
                                     is_periodic := True\<rparr>\<rparr>"

definition late_runqueue :: runqueue where
  "late_runqueue = \<lparr>queue = [periodic_task 90 0, periodic_task 200 30], curr = 0\<rparr>"

definition stopped_first_runqueue :: runqueue where
  "stopped_first_runqueue =
     \<lparr>queue = [idle_task\<lparr>state := 1, se := (se idle_task)\<lparr>deadline := 50\<rparr>\<rparr>,
               idle_task\<lparr>se := (se idle_task)\<lparr>prio := 5, vruntime := 10\<rparr>\<rparr>,
               idle_task\<lparr>se := (se idle_task)\<lparr>prio := 7, vruntime := 20\<rparr>\<rparr>],
      curr = 2\<rparr>"

definition lone_runner_runqueue :: runqueue where
  "lone_runner_runqueue = \<lparr>queue = [idle_task, idle_task\<lparr>state := 1\<rparr>], curr = 0\<rparr>"

section \<open>Lemmas: buddy system\<close>

subsection \<open>Flags and writes\<close>

lemma bb_test_flag_bit: "bb_test_flag p f = bit (flags p) f"
  by (simp add: bb_test_flag_def and_exp_eq_0_iff_not_bit)

lemma test_set_flag: "bb_test_flag (bb_set_flag p f) g = (bb_test_flag p g \<or> (f = g \<and> g < 32))"
  by (auto simp: bb_test_flag_bit bb_set_flag_def bit_or_iff bit_exp_iff)

lemma test_clear_flag: "bb_test_flag (bb_clear_flag p f) g = (bb_test_flag p g \<and> f \<noteq> g)"
  by (auto simp: bb_test_flag_bit bb_clear_flag_def bit_and_iff bit_not_iff bit_exp_iff dest: bit_imp_le_length)

lemma test_order_update: "bb_test_flag (p\<lparr>order := k\<rparr>) g = bb_test_flag p g"
  by (simp add: bb_test_flag_def)

lemma order_set_flag: "order (bb_set_flag p f) = order p" by (simp add: bb_set_flag_def)
lemma order_clear_flag: "order (bb_clear_flag p f) = order p" by (simp add: bb_clear_flag_def)

lemma pages_upd_page [simp]:
  "pages (upd_page p f inst) q = (if q = p then f (pages inst p) else pages inst q)"
  by (simp add: upd_page_def)

lemma pages_upd_area [simp]: "pages (upd_area k f inst) = pages inst"
  by (simp add: upd_area_def)

lemma pages_list_head_remove [simp]: "pages (list_head_remove p inst) = pages inst"
  by (simp add: list_head_remove_def)

lemma size_upd_page [simp]: "size_pgs (upd_page p f inst) = size_pgs inst"
  by (simp add: upd_page_def)

lemma size_upd_area [simp]: "size_pgs (upd_area k f inst) = size_pgs inst"
  by (simp add: upd_area_def)

lemma size_list_head_remove [simp]: "size_pgs (list_head_remove p inst) = size_pgs inst"
  by (simp add: list_head_remove_def)

subsection \<open>Release\<close>

text \<open>The merge loop never touches a FREE bit.\<close>

lemma free_merge_FREE:
  "free_merge M inst idx ord = (inst', idx', ord') \<Longrightarrow>
   bb_test_flag (pages inst' p) FREE_PAGE = bb_test_flag (pages inst p) FREE_PAGE"
proof (induction M inst idx ord rule: free_merge.induct)
  case (1 M inst idx ord)
  show ?case
  proof (cases "ord < M - 1 \<and> page_is_buddy (pages inst (get_buddy_at_index idx ord)) ord")
    case True
    let ?b = "get_buddy_at_index idx ord"
    let ?i = "upd_page idx (\<lambda>p. bb_clear_flag p ROOT_PAGE)
                (upd_page ?b (\<lambda>b. bb_clear_flag b ROOT_PAGE)
                  (upd_area ord nr_free_dec (list_head_remove ?b inst)))"
    from True "1.prems" have "free_merge M ?i (idx AND ?b) (ord + 1) = (inst', idx', ord')"
      by (subst (asm) free_merge.simps) (simp add: Let_def)
    with True "1.IH" [OF _ refl] have "bb_test_flag (pages inst' p) FREE_PAGE = bb_test_flag (pages ?i p) FREE_PAGE"
      by simp
    then show ?thesis
      by (simp add: test_clear_flag ROOT_PAGE_def FREE_PAGE_def)
  next
    case False
    with "1.prems" have "inst' = inst"
      by (subst (asm) free_merge.simps) (auto simp: Let_def split: if_splits)
    then show ?thesis by simp
  qed
qed

lemma free_twice:
  assumes "\<not> bb_test_flag (pages inst page) FREE_PAGE" "bb_test_flag (pages inst page) ROOT_PAGE"
  shows "\<exists>inst'. bb_free_pages M inst page = Inr inst'
           \<and> bb_free_pages M inst' page = Inl (Panic ''Double deallocation in buddy system!'')"
proof -
  obtain inst1 idx ord where fm:
    "free_merge M (upd_page page (\<lambda>p. bb_set_flag p FREE_PAGE) inst) page (order (pages inst page))
       = (inst1, idx, ord)"
    by (metis prod_cases3)
  let ?r = "upd_area ord (area_insert_after idx)
              (upd_page idx (\<lambda>p. (bb_set_flag (bb_set_flag p ROOT_PAGE) ROOT_PAGE)\<lparr>order := ord\<rparr>) inst1)"
  have r: "bb_free_pages M inst page = Inr ?r"
    using assms fm by (simp add: bb_free_pages_def)
  have "bb_test_flag (pages inst1 page) FREE_PAGE"
    using free_merge_FREE [OF fm, of page] by (simp add: test_set_flag FREE_PAGE_def)
  then have "bb_test_flag (pages ?r page) FREE_PAGE"
    by (auto simp: test_set_flag test_order_update)
  then have "bb_free_pages M ?r page = Inl (Panic ''Double deallocation in buddy system!'')"
    by (simp add: bb_free_pages_def)
  with r show ?thesis by blast
qed

subsection \<open>Allocation\<close>

lemma free_blocks_okD:
  "free_blocks_ok M inst \<Longrightarrow> k < M \<Longrightarrow> p \<in> set (free_list (free_area inst k)) \<Longrightarrow>
   p + 2 ^ k \<le> unat (size_pgs inst) \<and> (\<forall>j. p < j \<and> j < p + 2 ^ k \<longrightarrow> interior_page (pages inst j))"
  by (auto simp: free_blocks_ok_def list_all_iff)

text \<open>The split loop writes only descriptors at or after \<open>page + 2 ^ ord\<close>.\<close>

lemma alloc_split_below:
  "alloc_split inst page c ord sz = Inr inst' \<Longrightarrow> sz = 2 ^ c \<Longrightarrow> j < page + 2 ^ ord \<Longrightarrow>
   pages inst' j = pages inst j"
proof (induction inst page c ord sz rule: alloc_split.induct)
  case (1 inst page c ord sz)
  show ?case
  proof (cases "ord < c")
    case True
    let ?b = "page + sz div 2"
    let ?i = "upd_area (c - 1) nr_free_inc
               (upd_area (c - 1) (area_insert_after ?b)
                 (upd_page ?b (\<lambda>b. bb_set_flag (b\<lparr>order := c - 1\<rparr>) ROOT_PAGE) inst))"
    from True "1.prems"(1) have ok: "bb_test_flag (pages inst ?b) FREE_PAGE \<and> \<not> bb_test_flag (pages inst ?b) ROOT_PAGE"
      and rec: "alloc_split ?i page (c - 1) ord (sz div 2) = Inr inst'"
      by (subst (asm) alloc_split.simps, simp add: Let_def split: if_splits)+
    from True obtain c' where c: "c = Suc c'" by (cases c) auto
    with "1.prems"(2) have half: "sz div 2 = 2 ^ (c - 1)" by simp
    from True c have "(2::nat) ^ ord \<le> 2 ^ (c - 1)" by (simp add: power_increasing)
    with "1.prems"(3) have "j < page + 2 ^ (c - 1)" by linarith
    with half have "j \<noteq> ?b" by simp
    moreover from ok have ok': "\<not> \<not> (bb_test_flag (pages inst ?b) FREE_PAGE \<and> \<not> bb_test_flag (pages inst ?b) ROOT_PAGE)"
      by simp
    have "pages inst' j = pages ?i j"
      using "1.IH" [OF True refl refl refl ok' rec half "1.prems"(3)] .
    ultimately show ?thesis by simp
  next
    case False
    with "1.prems"(1) have "inst' = inst"
      by (subst (asm) alloc_split.simps) simp
    then show ?thesis by simp
  qed
qed

lemma alloc_split_size:
  "alloc_split inst page c ord sz = Inr inst' \<Longrightarrow> size_pgs inst' = size_pgs inst"
proof (induction inst page c ord sz rule: alloc_split.induct)
  case (1 inst page c ord sz)
  show ?case
  proof (cases "ord < c")
    case True
    let ?b = "page + sz div 2"
    let ?i = "upd_area (c - 1) nr_free_inc
               (upd_area (c - 1) (area_insert_after ?b)
                 (upd_page ?b (\<lambda>b. bb_set_flag (b\<lparr>order := c - 1\<rparr>) ROOT_PAGE) inst))"
    from True "1.prems"(1) have ok: "bb_test_flag (pages inst ?b) FREE_PAGE \<and> \<not> bb_test_flag (pages inst ?b) ROOT_PAGE"
      and rec: "alloc_split ?i page (c - 1) ord (sz div 2) = Inr inst'"
      by (subst (asm) alloc_split.simps, simp add: Let_def split: if_splits)+
    from ok have ok': "\<not> \<not> (bb_test_flag (pages inst ?b) FREE_PAGE \<and> \<not> bb_test_flag (pages inst ?b) ROOT_PAGE)"
      by simp
    have "size_pgs inst' = size_pgs ?i"
      using "1.IH" [OF True refl refl refl ok' rec] .
    then show ?thesis by simp
  next
    case False
    with "1.prems"(1) have "inst' = inst"
      by (subst (asm) alloc_split.simps) simp
    then show ?thesis by simp
  qed
qed

lemma bb_alloc_pages_exhausted:
  assumes "\<forall>k. ord \<le> k \<and> k < M \<longrightarrow> free_list (free_area inst k) = []"
  shows "bb_alloc_pages M inst ord = Inr (None, inst)"
proof -
  have "find (\<lambda>k. \<not> list_head_empty (free_list (get_area_of_order inst k))) [ord..<M] = None"
    using assms by (simp add: find_None_iff list_head_empty_def get_area_of_order_def)
  then show ?thesis by (simp add: bb_alloc_pages_def)
qed

lemma bb_alloc_pages_null_unchanged:
  "bb_alloc_pages M inst ord = Inr (None, inst') \<Longrightarrow> inst' = inst"
  by (auto simp: bb_alloc_pages_def Let_def split: option.splits list.splits if_splits sum.splits)

lemma bb_alloc_pages_success:
  assumes "bb_alloc_pages M inst ord = Inr (Some page, inst')"
  obtains c rest inst2 where
    "ord \<le> c" "c < M" "free_list (free_area inst c) = page # rest"
    "bb_test_flag (pages inst page) FREE_PAGE" "bb_test_flag (pages inst page) ROOT_PAGE"
    "alloc_split (upd_page page (\<lambda>p. bb_clear_flag p FREE_PAGE)
        (upd_area c nr_free_dec (list_head_remove page inst))) page c ord (2 ^ c) = Inr inst2"
    "inst' = upd_page page (\<lambda>p. p\<lparr>order := ord\<rparr>) inst2"
proof -
  from assms obtain c where f: "find (\<lambda>k. \<not> list_head_empty (free_list (get_area_of_order inst k))) [ord..<M] = Some c"
    by (auto simp: bb_alloc_pages_def split: option.splits)
  then have "c \<in> set [ord..<M]"
    by (auto simp: find_Some_iff)
  then have c: "ord \<le> c" "c < M" by auto
  from assms f obtain rest where l: "free_list (free_area inst c) = page # rest"
    by (auto simp: bb_alloc_pages_def get_area_of_order_def Let_def split: list.splits if_splits sum.splits)
  from assms f l obtain inst2 where
    "bb_test_flag (pages inst page) FREE_PAGE" "bb_test_flag (pages inst page) ROOT_PAGE"
    "alloc_split (upd_page page (\<lambda>p. bb_clear_flag p FREE_PAGE)
        (upd_area c nr_free_dec (list_head_remove page inst))) page c ord (2 ^ c) = Inr inst2"
    "inst' = upd_page page (\<lambda>p. p\<lparr>order := ord\<rparr>) inst2"
    by (auto simp: bb_alloc_pages_def get_area_of_order_def Let_def split: if_splits sum.splits)
  with c l that show thesis by blast
qed

lemma bb_alloc_pages_head:
  assumes "bb_alloc_pages M inst ord = Inr (Some page, inst')"
  shows "\<not> bb_test_flag (pages inst' page) FREE_PAGE" "bb_test_flag (pages inst' page) ROOT_PAGE"
    "order (pages inst' page) = ord"
proof -
  from assms obtain c rest inst2 where
    F: "bb_test_flag (pages inst page) FREE_PAGE" and R: "bb_test_flag (pages inst page) ROOT_PAGE"
    and sp: "alloc_split (upd_page page (\<lambda>p. bb_clear_flag p FREE_PAGE)
        (upd_area c nr_free_dec (list_head_remove page inst))) page c ord (2 ^ c) = Inr inst2"
    and i': "inst' = upd_page page (\<lambda>p. p\<lparr>order := ord\<rparr>) inst2"
    by (rule bb_alloc_pages_success)
  have "pages inst2 page = bb_clear_flag (pages inst page) FREE_PAGE"
    using alloc_split_below [OF sp refl, of page] by simp
  with R i' show "\<not> bb_test_flag (pages inst' page) FREE_PAGE" "bb_test_flag (pages inst' page) ROOT_PAGE"
    "order (pages inst' page) = ord"
    by (simp_all add: test_clear_flag test_order_update FREE_PAGE_def ROOT_PAGE_def)
qed

lemma bb_alloc_pages_block:
  assumes "bb_alloc_pages M inst ord = Inr (Some page, inst')" and ok: "free_blocks_ok M inst"
  shows "page + 2 ^ ord \<le> unat (size_pgs inst')"
    "\<forall>j. page < j \<and> j < page + 2 ^ ord \<longrightarrow> interior_page (pages inst' j)"
proof -
  from assms(1) obtain c rest inst2 where
    c: "ord \<le> c" "c < M" and l: "free_list (free_area inst c) = page # rest"
    and sp: "alloc_split (upd_page page (\<lambda>p. bb_clear_flag p FREE_PAGE)
        (upd_area c nr_free_dec (list_head_remove page inst))) page c ord (2 ^ c) = Inr inst2"
    and i': "inst' = upd_page page (\<lambda>p. p\<lparr>order := ord\<rparr>) inst2"
    by (rule bb_alloc_pages_success)
  from l have "page \<in> set (free_list (free_area inst c))" by simp
  from free_blocks_okD [OF ok c(2) this]
  have rng: "page + 2 ^ c \<le> unat (size_pgs inst)"
    and int: "\<forall>j. page < j \<and> j < page + 2 ^ c \<longrightarrow> interior_page (pages inst j)"
    by simp_all
  from c(1) have le: "(2::nat) ^ ord \<le> 2 ^ c" by (simp add: power_increasing)
  have "size_pgs inst' = size_pgs inst"
    using alloc_split_size [OF sp] i' by simp
  moreover from rng le have "page + 2 ^ ord \<le> unat (size_pgs inst)" by linarith
  ultimately show "page + 2 ^ ord \<le> unat (size_pgs inst')" by simp
  show "\<forall>j. page < j \<and> j < page + 2 ^ ord \<longrightarrow> interior_page (pages inst' j)"
  proof (intro allI impI)
    fix j assume j: "page < j \<and> j < page + 2 ^ ord"
    then have "pages inst2 j = pages inst j"
      using alloc_split_below [OF sp refl, of j] by simp
    with j i' have "pages inst' j = pages inst j" by simp
    moreover from j le have "page < j \<and> j < page + 2 ^ c" by linarith
    with int have "interior_page (pages inst j)" by blast
    ultimately show "interior_page (pages inst' j)" by simp
  qed
qed

lemma alloc_split_done: "alloc_split inst page ord ord sz = Inr inst"
  by (subst alloc_split.simps) simp

lemma bb_alloc_pages_order0:
  assumes "0 < M" and "free_list (free_area inst 0) = p # rest"
    and "bb_test_flag (pages inst p) FREE_PAGE" and "bb_test_flag (pages inst p) ROOT_PAGE"
  shows "bb_alloc_pages M inst 0 =
           Inr (Some p, upd_page p (\<lambda>p. p\<lparr>order := 0\<rparr>)
                  (upd_page p (\<lambda>p. bb_clear_flag p FREE_PAGE)
                    (upd_area 0 nr_free_dec (list_head_remove p inst))))"
proof -
  from assms(1) have "[0..<M] = 0 # [1..<M]"
    by (simp add: upt_conv_Cons)
  with assms(2) have "find (\<lambda>k. \<not> list_head_empty (free_list (get_area_of_order inst k))) [0..<M] = Some 0"
    by (simp add: list_head_empty_def get_area_of_order_def)
  with assms(2-4) show ?thesis
    by (simp add: bb_alloc_pages_def get_area_of_order_def alloc_split_done)
qed

subsection \<open>Cache\<close>

lemma cache_extend_ok:
  "0 < M \<Longrightarrow> order0_supply inst \<Longrightarrow> n \<le> length (free_list (free_area inst 0)) \<Longrightarrow>
   \<exists>inst'. cache_extend M inst n = Inr inst'
     \<and> free_pages_cache_size inst' = free_pages_cache_size inst + of_nat n
     \<and> length (free_pages_cache_list inst') = length (free_pages_cache_list inst) + n"
proof (induction n arbitrary: inst)
  case 0
  then show ?case by simp
next
  case (Suc n)
  from Suc.prems(3) obtain p rest where l: "free_list (free_area inst 0) = p # rest"
    by (cases "free_list (free_area inst 0)") auto
  from Suc.prems(2) l have fl: "bb_test_flag (pages inst p) FREE_PAGE" "bb_test_flag (pages inst p) ROOT_PAGE"
    and pc: "p \<notin> set (free_pages_cache_list inst)" and pr: "p \<notin> set rest" and dr: "distinct rest"
    and rest: "\<forall>q\<in>set rest. bb_test_flag (pages inst q) FREE_PAGE \<and> bb_test_flag (pages inst q) ROOT_PAGE
                 \<and> q \<notin> set (free_pages_cache_list inst)"
    by (auto simp: order0_supply_def list_all_iff)
  let ?i1 = "upd_page p (\<lambda>p. p\<lparr>order := 0\<rparr>)
                  (upd_page p (\<lambda>p. bb_clear_flag p FREE_PAGE)
                    (upd_area 0 nr_free_dec (list_head_remove p inst)))"
  let ?i2 = "?i1\<lparr>free_pages_cache_list := p # free_pages_cache_list ?i1,
                 free_pages_cache_size := free_pages_cache_size ?i1 + 1\<rparr>"
  have a: "bb_alloc_pages M inst 0 = Inr (Some p, ?i1)"
    by (rule bb_alloc_pages_order0 [OF Suc.prems(1) l fl])
  have l2: "free_list (free_area ?i2 0) = rest"
    using l pr by (simp add: upd_page_def upd_area_def list_head_remove_def nr_free_dec_def)
  have c2: "free_pages_cache_list ?i2 = p # free_pages_cache_list inst"
    using pc by (simp add: upd_page_def upd_area_def list_head_remove_def)
  have s2: "free_pages_cache_size ?i2 = free_pages_cache_size inst + 1"
    by (simp add: upd_page_def upd_area_def list_head_remove_def)
  have p2: "pages ?i2 q = pages inst q" if "q \<noteq> p" for q
    using that by (simp add: upd_page_def upd_area_def list_head_remove_def)
  have sup: "order0_supply ?i2"
    unfolding order0_supply_def l2 c2 list_all_iff
    using dr rest pr p2 by auto
  from Suc.prems(3) l have "n \<le> length (free_list (free_area ?i2 0))"
    unfolding l2 by simp
  from Suc.IH [OF Suc.prems(1) sup this] obtain inst' where
    "cache_extend M ?i2 n = Inr inst'"
    "free_pages_cache_size inst' = free_pages_cache_size ?i2 + of_nat n"
    "length (free_pages_cache_list inst') = length (free_pages_cache_list ?i2) + n"
    by blast
  with a show ?case
    unfolding s2 c2 by (simp del: upd_page_def)
qed

lemma cached_alloc_refill:
  assumes "0 < M" and "order0_supply inst" and "40 \<le> length (free_list (free_area inst 0))"
    and "free_pages_cache_size inst = 0"
  shows "\<exists>page inst'. bb_alloc_page_cached M inst = Inr (page, inst')
     \<and> free_pages_cache_size inst' = 40
     \<and> length (free_pages_cache_list inst') = length (free_pages_cache_list inst) + 39"
proof -
  from cache_extend_ok [OF assms(1,2,3)] obtain inst1 where
    e: "cache_extend M inst 40 = Inr inst1"
    and s: "free_pages_cache_size inst1 = free_pages_cache_size inst + 40"
    and l: "length (free_pages_cache_list inst1) = length (free_pages_cache_list inst) + 40"
    by auto
  from l obtain p rest where c: "free_pages_cache_list inst1 = p # rest"
    by (cases "free_pages_cache_list inst1") auto
  with e s l assms(4) show ?thesis
    by (simp add: bb_alloc_page_cached_def cached_alloc_def LOW_WATERMARK_LEVEL_def
        MID_WATERMARK_LEVEL_def HIGH_WATERMARK_LEVEL_def list_head_pop_def)
qed

lemma cached_alloc_pop:
  assumes "free_pages_cache_size inst = 40"
  shows "\<exists>page inst'. bb_alloc_page_cached M inst = Inr (page, inst')
     \<and> free_pages_cache_size inst' = 40
     \<and> length (free_pages_cache_list inst') = length (free_pages_cache_list inst) - 1"
  using assms
  by (auto simp: bb_alloc_page_cached_def cached_alloc_def LOW_WATERMARK_LEVEL_def
        list_head_pop_def split: list.splits)

lemma cached_free_push:
  assumes "free_pages_cache_size inst = 40"
  shows "bb_free_page_cached M inst page
           = Inr (inst\<lparr>free_pages_cache_list := page # free_pages_cache_list inst\<rparr>)"
  using assms
  by (simp add: bb_free_page_cached_def cached_free_def HIGH_WATERMARK_LEVEL_def)

lemma free_cached_each_push:
  "free_pages_cache_size inst = 40 \<Longrightarrow>
   free_cached_each M inst ps
     = Inr (inst\<lparr>free_pages_cache_list := rev ps @ free_pages_cache_list inst\<rparr>)"
proof (induction ps arbitrary: inst)
  case Nil
  then show ?case by simp
next
  case (Cons page ps)
  let ?i = "inst\<lparr>free_pages_cache_list := page # free_pages_cache_list inst\<rparr>"
  from Cons.prems have "free_pages_cache_size ?i = 40" by simp
  from Cons.IH [OF this] cached_free_push [OF Cons.prems, of M page] show ?case
    by simp
qed

lemma fold_free_space:
  "fold (\<lambda>ord sz. sz + f ord) [0..<M] (a::u32) = a + (\<Sum>k<M. f k)"
  by (induction M) (simp_all add: algebra_simps)

lemma fold_const_add:
  "fold (\<lambda>ord sz. sz + c) [0..<M] (a::u32) = a + of_nat M * c"
  by (induction M) (simp_all add: algebra_simps)

lemma cached_space_formula:
  "buddy_system_get_cached_space M PS inst = of_nat M * (free_pages_cache_size inst * PS)"
  by (simp add: buddy_system_get_cached_space_def fold_const_add)

subsection \<open>Scenario S1, evaluated\<close>

lemmas buddy_eval =
  buddy_system_init_def raw_memory_def upd_page_def upd_area_def init_blocks.simps
  nr_free_inc_def nr_free_dec_def area_insert_before_def area_insert_after_def
  bb_set_flag_def bb_clear_flag_def bb_test_flag_def ROOT_PAGE_def FREE_PAGE_def
  upt_rec [of _ "numeral _"] upt_rec [of _ "Suc _"] Let_def
  bb_alloc_pages_def bb_free_pages_def alloc_split.simps free_merge.simps
  list_head_remove_def list_head_empty_def get_area_of_order_def get_buddy_at_index_def
  page_is_buddy_def nr_free_vector_def free_list_vector_def

lemma S1_init: "buddy_system_init 4 raw_memory 8 = Inr S1_fresh"
  by (simp add: S1_fresh_def buddy_eval)

lemma S1_alloc: "bb_alloc_pages 4 S1_fresh 0 = Inr (Some 0, S1_after_alloc)"
  by (simp add: S1_after_alloc_def S1_fresh_def buddy_eval)

lemma S1_alloc1: "bb_alloc_pages 4 S1_fresh 1 = Inr (Some 0, S1_after_alloc1)"
  by (simp add: S1_after_alloc1_def S1_fresh_def buddy_eval)

lemma S1_free: "bb_free_pages 4 S1_after_alloc 0 = Inr S1_after_free"
  by (simp add: S1_after_free_def S1_after_alloc_def S1_fresh_def buddy_eval)

lemma S1_fresh_vectors:
  "nr_free_vector 4 S1_fresh = [0, 0, 0, 1]" "free_list_vector 4 S1_fresh = [[], [], [], [0]]"
  by (simp_all add: S1_fresh_def buddy_eval)

lemma S1_after_alloc_vectors:
  "nr_free_vector 4 S1_after_alloc = [1, 1, 1, 0]"
  "free_list_vector 4 S1_after_alloc = [[1], [2], [4], []]"
  by (simp_all add: S1_after_alloc_def S1_fresh_def buddy_eval)

lemma S1_after_free_vectors:
  "nr_free_vector 4 S1_after_free = [0, 0, 0, 0]"
  "free_list_vector 4 S1_after_free = [[], [], [], [0]]"
  by (simp_all add: S1_after_free_def S1_after_alloc_def S1_fresh_def buddy_eval)

lemma S1_fresh_blocks_ok: "free_blocks_ok 4 S1_fresh"
  by (simp add: free_blocks_ok_def interior_page_def S1_fresh_def buddy_eval)

lemma S1_after_alloc_no3: "\<forall>k. 3 \<le> k \<and> k < 4 \<longrightarrow> free_list (free_area S1_after_alloc k) = []"
proof (intro allI impI)
  fix k :: nat assume "3 \<le> k \<and> k < 4"
  then have "k = 3" by simp
  then show "free_list (free_area S1_after_alloc k) = []"
    by (simp add: S1_after_alloc_def S1_fresh_def buddy_eval)
qed

lemma S1_fresh_flags:
  "bb_test_flag (pages S1_fresh 0) FREE_PAGE" "\<not> bb_test_flag (pages S1_fresh 1) ROOT_PAGE"
  by (simp_all add: S1_fresh_def buddy_eval)

lemma striped_supply: "order0_supply striped_instance"
proof -
  have "inj_on (\<lambda>i::nat. 2 * i) (set [0..<40])"
    by (simp add: inj_on_def)
  then have "distinct (map (\<lambda>i::nat. 2 * i) [0..<40])"
    by (simp add: distinct_map)
  then show ?thesis
    by (auto simp: order0_supply_def striped_instance_def list_all_iff bb_test_flag_def
        FREE_PAGE_def ROOT_PAGE_def)
qed

section \<open>Lemmas: scheduler\<close>

lemma rr_loop_None:
  "\<forall>i. Entry i \<in> set its \<longrightarrow>
        \<not> (state (q ! i) = TASK_RUNNING \<and> \<not> (is_periodic_task (q ! i) \<and> skip)) \<Longrightarrow>
   rr_loop q skip its = None"
  by (induction q skip its rule: rr_loop.induct) auto

lemma set_for_each_from_curr:
  "Entry i \<in> set (for_each_from_curr rq) \<longleftrightarrow>
     (curr rq < i \<and> i < length (queue rq)) \<or> i < curr rq"
  by (auto simp: for_each_from_curr_def)

lemma list_head_size_eq:
  "curr rq < length (queue rq) \<Longrightarrow> list_head_size rq = length (queue rq)"
  by (simp add: list_head_size_def for_each_from_curr_def)

lemma distinct_for_each_from_queue: "distinct (for_each_from_queue rq)"
  by (simp add: for_each_from_queue_def distinct_map inj_on_def)

lemma set_for_each_from_queue:
  "Entry i \<in> set (for_each_from_queue rq) \<longleftrightarrow> i < length (queue rq)"
  by (auto simp: for_each_from_queue_def)

text \<open>
  What a pass of the EDF, RM or LLF loop leaves in the queue: the tasks whose rollover is
  due are rolled over, the others are as before.
\<close>

lemma edf_loop_queue:
  "distinct its \<Longrightarrow> edf_loop now its (q, nx, dl) = (q', nx', dl') \<Longrightarrow>
   length q' = length q \<and>
   (\<forall>i<length q. q' ! i = (if Entry i \<in> set its \<and> rollover_due now (q ! i)
                            then rollover (q ! i) else q ! i))"
proof (induction its arbitrary: q nx dl)
  case Nil
  then show ?case by simp
next
  case (Cons it its)
  show ?case
  proof (cases it)
    case Head
    with Cons show ?thesis by simp
  next
    case (Entry k)
    from Cons.prems(1) Entry have nk: "Entry k \<notin> set its" and d: "distinct its" by auto
    show ?thesis
    proof (cases "rollover_due now (q ! k)")
      case True
      with Cons.prems(2) Entry
      have "edf_loop now its (q[k := rollover (q ! k)], nx, dl) = (q', nx', dl')"
        by (simp add: rollover_due_def)
      from Cons.IH [OF d this]
      have len: "length q' = length q"
        and ih: "\<And>i. i < length q \<Longrightarrow>
               q' ! i = (if Entry i \<in> set its \<and> rollover_due now (q[k := rollover (q ! k)] ! i)
                         then rollover (q[k := rollover (q ! k)] ! i)
                         else q[k := rollover (q ! k)] ! i)"
        by simp_all
      have "q' ! i = (if Entry i \<in> set (it # its) \<and> rollover_due now (q ! i)
                      then rollover (q ! i) else q ! i)" if i: "i < length q" for i
      proof (cases "i = k")
        case True
        with ih [OF i] nk i \<open>rollover_due now (q ! k)\<close> Entry show ?thesis by simp
      next
        case False
        with ih [OF i] Entry show ?thesis by simp
      qed
      with len show ?thesis by simp
    next
      case False
      with Cons.prems(2) Entry
      obtain nx1 dl1 where "edf_loop now its (q, nx1, dl1) = (q', nx', dl')"
        by (auto simp: rollover_due_def split: if_splits)
      from Cons.IH [OF d this] False Entry show ?thesis
        by auto
    qed
  qed
qed

lemma rm_loop_queue:
  "distinct its \<Longrightarrow> rm_loop now its (q, nx, dl) = (q', nx', dl') \<Longrightarrow>
   length q' = length q \<and>
   (\<forall>i<length q. q' ! i = (if Entry i \<in> set its \<and> rollover_due now (q ! i)
                            then rollover (q ! i) else q ! i))"
proof (induction its arbitrary: q nx dl)
  case Nil
  then show ?case by simp
next
  case (Cons it its)
  show ?case
  proof (cases it)
    case Head
    with Cons show ?thesis by simp
  next
    case (Entry k)
    from Cons.prems(1) Entry have nk: "Entry k \<notin> set its" and d: "distinct its" by auto
    show ?thesis
    proof (cases "rollover_due now (q ! k)")
      case True
      with Cons.prems(2) Entry
      have "rm_loop now its (q[k := rollover (q ! k)], nx, dl) = (q', nx', dl')"
        by (simp add: rollover_due_def)
      from Cons.IH [OF d this]
      have len: "length q' = length q"
        and ih: "\<And>i. i < length q \<Longrightarrow>
               q' ! i = (if Entry i \<in> set its \<and> rollover_due now (q[k := rollover (q ! k)] ! i)
                         then rollover (q[k := rollover (q ! k)] ! i)
                         else q[k := rollover (q ! k)] ! i)"
        by simp_all
      have "q' ! i = (if Entry i \<in> set (it # its) \<and> rollover_due now (q ! i)
                      then rollover (q ! i) else q ! i)" if i: "i < length q" for i
      proof (cases "i = k")
        case True
        with ih [OF i] nk i \<open>rollover_due now (q ! k)\<close> Entry show ?thesis by simp
      next
        case False
        with ih [OF i] Entry show ?thesis by simp
      qed
      with len show ?thesis by simp
    next
      case False
      with Cons.prems(2) Entry
      obtain nx1 dl1 where "rm_loop now its (q, nx1, dl1) = (q', nx', dl')"
        by (auto simp: rollover_due_def split: if_splits)
      from Cons.IH [OF d this] False Entry show ?thesis
        by auto
    qed
  qed
qed

lemma llf_loop_queue:
  "distinct its \<Longrightarrow> llf_loop now its (q, nx, dl) = (q', nx', dl') \<Longrightarrow>
   length q' = length q \<and>
   (\<forall>i<length q. q' ! i = (if Entry i \<in> set its \<and> rollover_due now (q ! i)
                            then rollover (q ! i) else q ! i))"
proof (induction its arbitrary: q nx dl)
  case Nil
  then show ?case by simp
next
  case (Cons it its)
  show ?case
  proof (cases it)
    case Head
    with Cons show ?thesis by simp
  next
    case (Entry k)
    from Cons.prems(1) Entry have nk: "Entry k \<notin> set its" and d: "distinct its" by auto
    show ?thesis
    proof (cases "rollover_due now (q ! k)")
      case True
      with Cons.prems(2) Entry
      have "llf_loop now its (q[k := rollover (q ! k)], nx, dl) = (q', nx', dl')"
        by (simp add: rollover_due_def)
      from Cons.IH [OF d this]
      have len: "length q' = length q"
        and ih: "\<And>i. i < length q \<Longrightarrow>
               q' ! i = (if Entry i \<in> set its \<and> rollover_due now (q[k := rollover (q ! k)] ! i)
                         then rollover (q[k := rollover (q ! k)] ! i)
                         else q[k := rollover (q ! k)] ! i)"
        by simp_all
      have "q' ! i = (if Entry i \<in> set (it # its) \<and> rollover_due now (q ! i)
                      then rollover (q ! i) else q ! i)" if i: "i < length q" for i
      proof (cases "i = k")
        case True
        with ih [OF i] nk i \<open>rollover_due now (q ! k)\<close> Entry show ?thesis by simp
      next
        case False
        with ih [OF i] Entry show ?thesis by simp
      qed
      with len show ?thesis by simp
    next
      case False
      with Cons.prems(2) Entry
      obtain nx1 dl1 where "llf_loop now its (q, nx1, dl1) = (q', nx', dl')"
        by (auto simp: rollover_due_def split: if_splits)
      from Cons.IH [OF d this] False Entry show ?thesis
        by auto
    qed
  qed
qed

text \<open>The candidate of an EDF pass was periodic, not under analysis and not executed before the pass.\<close>

lemma edf_loop_candidate:
  "distinct its \<Longrightarrow> edf_loop now its (q, nx, dl) = (q', nx', dl') \<Longrightarrow>
   nx' = nx \<or> (\<exists>j. nx' = Some j \<and> Entry j \<in> set its \<and> is_periodic_task (q ! j)
                     \<and> \<not> executed (se (q ! j)))"
proof (induction its arbitrary: q nx dl)
  case Nil
  then show ?case by simp
next
  case (Cons it its)
  show ?case
  proof (cases it)
    case Head
    with Cons show ?thesis by auto
  next
    case (Entry k)
    from Cons.prems(1) Entry have nk: "Entry k \<notin> set its" and d: "distinct its" by auto
    show ?thesis
    proof (cases "rollover_due now (q ! k)")
      case True
      with Cons.prems(2) Entry
      have "edf_loop now its (q[k := rollover (q ! k)], nx, dl) = (q', nx', dl')"
        by (simp add: rollover_due_def)
      from Cons.IH [OF d this]
      consider "nx' = nx"
        | j where "nx' = Some j" "Entry j \<in> set its" "is_periodic_task (q[k := rollover (q ! k)] ! j)"
            "\<not> executed (se (q[k := rollover (q ! k)] ! j))"
        by blast
      then show ?thesis
      proof cases
        case 1
        then show ?thesis by simp
      next
        case 2
        from 2(2) nk have "j \<noteq> k" by auto
        with 2 show ?thesis by auto
      qed
    next
      case False
      show ?thesis
      proof (cases "is_periodic_task (q ! k) \<and> \<not> executed (se (q ! k)) \<and> deadline (se (q ! k)) < dl")
        case True
        with Cons.prems(2) Entry False
        have "edf_loop now its (q, Some k, deadline (se (q ! k))) = (q', nx', dl')"
          by (auto simp: rollover_due_def is_periodic_task_def split: if_splits)
        from Cons.IH [OF d this] True Entry show ?thesis
          by auto
      next
        case F2: False
        with Cons.prems(2) Entry False
        have "edf_loop now its (q, nx, dl) = (q', nx', dl')"
          by (auto simp: rollover_due_def is_periodic_task_def split: if_splits)
        from Cons.IH [OF d this] Entry show ?thesis
          by auto
      qed
    qed
  qed
qed

lemma dispatch_queue:
  assumes "dispatch p env rq = (nx, rq2)"
  shows "curr rq2 = curr rq \<and> length (queue rq2) = length (queue rq) \<and>
    (\<forall>i<length (queue rq). queue rq2 ! i =
        (if rolls_over p \<and> rollover_due (timer_get_ticks env) (queue rq ! i)
         then rollover (queue rq ! i) else queue rq ! i))"
proof (cases p)
  case SCHEDULER_EDF
  obtain q' nx' dl' where l: "edf_loop (timer_get_ticks env) (for_each_from_queue rq)
             (queue rq, None, UINT_MAX) = (q', nx', dl')"
    by (metis prod_cases3)
  with assms SCHEDULER_EDF have "rq2 = rq\<lparr>queue := q'\<rparr>"
    by (auto simp: dispatch_def scheduler_edf_def split: option.splits)
  with edf_loop_queue [OF distinct_for_each_from_queue l] SCHEDULER_EDF show ?thesis
    by (simp add: rolls_over_def set_for_each_from_queue)
next
  case SCHEDULER_RM
  obtain q' nx' dl' where l: "rm_loop (timer_get_ticks env) (for_each_from_queue rq)
             (queue rq, None, UINT_MAX) = (q', nx', dl')"
    by (metis prod_cases3)
  with assms SCHEDULER_RM have "rq2 = rq\<lparr>queue := q'\<rparr>"
    by (auto simp: dispatch_def scheduler_rm_def split: option.splits)
  with rm_loop_queue [OF distinct_for_each_from_queue l] SCHEDULER_RM show ?thesis
    by (simp add: rolls_over_def set_for_each_from_queue)
next
  case SCHEDULER_LLF
  obtain q' nx' dl' where l: "llf_loop (timer_get_ticks env) (for_each_from_queue rq)
             (queue rq, None, UINT_MAX) = (q', nx', dl')"
    by (metis prod_cases3)
  with assms SCHEDULER_LLF have "rq2 = rq\<lparr>queue := q'\<rparr>"
    by (auto simp: dispatch_def scheduler_llf_def split: option.splits)
  with llf_loop_queue [OF distinct_for_each_from_queue l] SCHEDULER_LLF show ?thesis
    by (simp add: rolls_over_def set_for_each_from_queue)
qed (use assms in \<open>auto simp: dispatch_def rolls_over_def\<close>)

subsection \<open>Scenarios, evaluated\<close>

lemmas sched_eval =
  idle_task_def env_at_def S4_T_def S4_runqueue_def S4_after_pick_def S4_after_rr_def
  periodic_task_def late_runqueue_def stopped_first_runqueue_def lone_runner_runqueue_def
  scheduler_pick_next_task_def dispatch_def updates_statistics_def update_task_statistics_def
  scheduler_rr_def scheduler_priority_def scheduler_cfs_def scheduler_aedf_def scheduler_edf_def
  scheduler_rm_def scheduler_llf_def list_head_size_def for_each_from_curr_def
  for_each_from_queue_def is_periodic_task_def rollover_def this_lax_def TASK_RUNNING_def
  UINT_MAX_def Let_def upt_rec [of _ "numeral _"] upt_rec [of _ "Suc _"] upt_rec [of 0 "length _"]
  rollover_due_def rolls_over_def task_after_pick_def

lemma S4_pick_edf: "scheduler_pick_next_task SCHEDULER_EDF (env_at 105) S4_runqueue = Inr (0, S4_after_pick)"
  by (simp add: sched_eval)

lemma S4_pick_differs: "S4_after_pick \<noteq> S4_runqueue\<lparr>queue := (queue S4_runqueue)
            [0 := (queue S4_runqueue ! 0)\<lparr>se := (se (queue S4_runqueue ! 0))\<lparr>exec_start := 105\<rparr>\<rparr>]\<rparr>"
  by (simp add: sched_eval)

lemma S4_pick_rr: "scheduler_pick_next_task SCHEDULER_RR (env_at 105) S4_runqueue = Inr (1, S4_after_rr)"
  by (simp add: sched_eval)

lemma S4_due: "rollover_due (timer_get_ticks (env_at 105)) (queue S4_runqueue ! 1)"
  by (simp add: sched_eval)

lemma lone_runner:
  "state (queue lone_runner_runqueue ! curr lone_runner_runqueue) = TASK_RUNNING"
  "scheduler_rr lone_runner_runqueue False = None"
  by (simp_all add: sched_eval)

section \<open>The claims\<close>

subsection \<open>C1\<close>

text \<open>
  Claim C1 says that a fresh instance, after allocations that are all released again, has
  \<^verbatim>\<open>nr_free == size / 2^(MAX_ORDER-1)\<close> at the highest order, zero at the others, and
  every counter equal to the length of its list, because \<^verbatim>\<open>bb_free_pages\<close> increments
  \<^verbatim>\<open>nr_free\<close> of the area where it links the merged block. The code links the block and
  leaves the counter alone. In scenario S1 (4 orders, 8 pages) the fresh instance has the
  counters 0, 0, 0, 1; allocating page 0 at order 0 and releasing it merges the three
  buddies back and links page 0 at order 3, and the counters are 0, 0, 0, 0 while the list
  of order 3 has one element.
\<close>

theorem bb_free_pages_leaves_nr_free:
  "buddy_system_init 4 raw_memory 8 = Inr S1_fresh
   \<and> nr_free_vector 4 S1_fresh = [0, 0, 0, 1]
   \<and> bb_alloc_pages 4 S1_fresh 0 = Inr (Some 0, S1_after_alloc)
   \<and> nr_free_vector 4 S1_after_alloc = [1, 1, 1, 0]
   \<and> bb_free_pages 4 S1_after_alloc 0 = Inr S1_after_free
   \<and> free_list_vector 4 S1_after_free = [[], [], [], [0]]
   \<and> nr_free_vector 4 S1_after_free = [0, 0, 0, 0]
   \<and> nr_free (free_area S1_after_free 3) \<noteq> of_nat (length (free_list (free_area S1_after_free 3)))"
proof -
  have "free_list (free_area S1_after_free 3) = [0]" "nr_free (free_area S1_after_free 3) = 0"
    using S1_after_free_vectors
    by (simp_all add: nr_free_vector_def free_list_vector_def upt_rec [of _ "numeral _"]
        numeral_3_eq_3)
  then have "nr_free (free_area S1_after_free 3) \<noteq> of_nat (length (free_list (free_area S1_after_free 3)))"
    by simp
  with S1_init S1_alloc S1_free S1_fresh_vectors(1) S1_after_alloc_vectors(1) S1_after_free_vectors
  show ?thesis by simp
qed

subsection \<open>C2\<close>

text \<open>
  Claim C2 says that 5 successive cached allocations from an empty cache end with
  \<^verbatim>\<open>cache_size = 35\<close>. \<^verbatim>\<open>__cached_alloc\<close> pops a page without decrementing the count and
  \<^verbatim>\<open>__cached_free\<close> pushes one without incrementing it; only the refill and the drain
  move the count. On every instance whose free list of order 0 supplies the 40 pages of
  the refill, the 5 calls return, the cache then holds 35 pages and the count is 40;
  cached releases after them, however many, push their pages, leave the count at 40 and
  drain nothing.
\<close>

theorem cached_alloc_leaves_count:
  assumes "0 < M" and "order0_supply inst" and "40 \<le> length (free_list (free_area inst 0))"
    and "free_pages_cache_size inst = 0" and "free_pages_cache_list inst = []"
  shows "\<exists>inst'. alloc_cached_n M 5 inst = Inr inst'
     \<and> free_pages_cache_size inst' = 40
     \<and> length (free_pages_cache_list inst') = 35
     \<and> free_cached_each M inst' ps
           = Inr (inst'\<lparr>free_pages_cache_list := rev ps @ free_pages_cache_list inst'\<rparr>)"
proof -
  from cached_alloc_refill [OF assms(1-4)] assms(5) obtain p1 i1 where
    1: "bb_alloc_page_cached M inst = Inr (p1, i1)" "free_pages_cache_size i1 = 40"
       "length (free_pages_cache_list i1) = 39"
    by auto
  from cached_alloc_pop [OF 1(2), of M] 1(3) obtain p2 i2 where
    2: "bb_alloc_page_cached M i1 = Inr (p2, i2)" "free_pages_cache_size i2 = 40"
       "length (free_pages_cache_list i2) = 38"
    by auto
  from cached_alloc_pop [OF 2(2), of M] 2(3) obtain p3 i3 where
    3: "bb_alloc_page_cached M i2 = Inr (p3, i3)" "free_pages_cache_size i3 = 40"
       "length (free_pages_cache_list i3) = 37"
    by auto
  from cached_alloc_pop [OF 3(2), of M] 3(3) obtain p4 i4 where
    4: "bb_alloc_page_cached M i3 = Inr (p4, i4)" "free_pages_cache_size i4 = 40"
       "length (free_pages_cache_list i4) = 36"
    by auto
  from cached_alloc_pop [OF 4(2), of M] 4(3) obtain p5 i5 where
    5: "bb_alloc_page_cached M i4 = Inr (p5, i5)" "free_pages_cache_size i5 = 40"
       "length (free_pages_cache_list i5) = 35"
    by auto
  have "alloc_cached_n M 5 inst = Inr i5"
    using 1(1) 2(1) 3(1) 4(1) 5(1) by (simp add: eval_nat_numeral)
  with 5(2,3) free_cached_each_push [OF 5(2)] show ?thesis by blast
qed

theorem cached_alloc_leaves_count_witness:
  "alloc_cached_n 14 5 striped_instance = Inr striped_after_5
   \<and> free_pages_cache_size striped_after_5 = 40
   \<and> length (free_pages_cache_list striped_after_5) = 35
   \<and> free_cached_each 14 striped_after_5 [100..<171]
        = Inr (striped_after_5\<lparr>free_pages_cache_list :=
                 rev [100..<171] @ free_pages_cache_list striped_after_5\<rparr>)"
proof -
  have "(0::nat) < 14" by simp
  moreover have "40 \<le> length (free_list (free_area striped_instance 0))"
    by (simp add: striped_instance_def)
  moreover have "free_pages_cache_size striped_instance = 0" "free_pages_cache_list striped_instance = []"
    by (simp_all add: striped_instance_def)
  ultimately obtain inst' where
    "alloc_cached_n 14 5 striped_instance = Inr inst'" "free_pages_cache_size inst' = 40"
    "length (free_pages_cache_list inst') = 35"
    "free_cached_each 14 inst' [100..<171]
       = Inr (inst'\<lparr>free_pages_cache_list := rev [100..<171] @ free_pages_cache_list inst'\<rparr>)"
    using cached_alloc_leaves_count [of 14 striped_instance "[100..<171]"] striped_supply by blast
  then show ?thesis
    by (simp add: striped_after_5_def)
qed

subsection \<open>C3\<close>

text \<open>
  Claim C3 says that LLF compares the laxity as a signed quantity, so that a task with
  negative laxity is preferred to any task with a larger one. \<^verbatim>\<open>this_lax\<close> is an
  \<^verbatim>\<open>int\<close>, the running minimum \<^verbatim>\<open>min_lax\<close> is an unsigned \<^verbatim>\<open>time_t\<close>, and the comparison is
  made unsigned. At tick 100, with a first task of deadline 90 (laxity -10) and a second
  of deadline 200 and 30 ticks run (laxity 70), the policy returns the second task.
\<close>

theorem llf_passes_over_negative_laxity:
  "this_lax 100 (queue late_runqueue ! 0) = - 10
   \<and> this_lax 100 (queue late_runqueue ! 1) = 70
   \<and> fst (scheduler_llf (env_at 100) late_runqueue) = Some 1"
  by (simp add: sched_eval)

subsection \<open>C4\<close>

text \<open>
  Claim C4 says that the only state change of \<^verbatim>\<open>scheduler_pick_next_task\<close> is the write
  of \<^verbatim>\<open>exec_start\<close> on the chosen task. Under EDF, on the run queue of scenario S4 at tick
  105, the call also updates the statistics of \<^verbatim>\<open>curr\<close> and rolls the period of the
  periodic task over: the run queue after the call is not the one the claim describes.
\<close>

theorem pick_next_task_writes_more:
  "scheduler_pick_next_task SCHEDULER_EDF (env_at 105) S4_runqueue = Inr (0, S4_after_pick)
   \<and> S4_after_pick \<noteq> S4_runqueue\<lparr>queue := (queue S4_runqueue)
        [0 := (queue S4_runqueue ! 0)\<lparr>se := (se (queue S4_runqueue ! 0))\<lparr>exec_start := 105\<rparr>\<rparr>]\<rparr>"
  using S4_pick_edf S4_pick_differs by simp

text \<open>
  Claim C4, amended: a call that returns leaves \<^verbatim>\<open>curr\<close> and the length of the queue as
  they were, and every task of the queue is its old value after at most three writes, in
  this order: the statistics update, if the task is \<^verbatim>\<open>curr\<close> and the policy is CFS, EDF,
  RM, AEDF or LLF; the period rollover, if the policy is EDF, RM or LLF and the rollover of
  the task is due; and \<^verbatim>\<open>exec_start := now()\<close>, if the task is the chosen one. Under RR
  and PRIORITY the write of \<^verbatim>\<open>exec_start\<close> on the chosen task is the only change.
\<close>

theorem pick_next_task_frame:
  assumes "scheduler_pick_next_task p env rq = Inr (nxt, rq')"
  shows "curr rq' = curr rq \<and> length (queue rq') = length (queue rq)
    \<and> (\<forall>i<length (queue rq).
          queue rq' ! i = task_after_pick p env (i = curr rq) (i = nxt) (queue rq ! i))
    \<and> (\<not> updates_statistics p \<longrightarrow>
          rq' = rq\<lparr>queue := (queue rq)[nxt := (queue rq ! nxt)
                      \<lparr>se := (se (queue rq ! nxt))\<lparr>exec_start := timer_get_ticks env\<rparr>\<rparr>]\<rparr>)"
proof -
  let ?rq1 = "if updates_statistics p
              then rq\<lparr>queue := (queue rq)[curr rq := update_task_statistics env (queue rq ! curr rq)]\<rparr>
              else rq"
  obtain n2 rq2 where d: "dispatch p env ?rq1 = (n2, rq2)"
    by (metis surj_pair)
  with assms have n2: "n2 = Some nxt"
    and rq': "rq' = rq2\<lparr>queue := (queue rq2)[nxt := (queue rq2 ! nxt)
                      \<lparr>se := (se (queue rq2 ! nxt))\<lparr>exec_start := timer_get_ticks env\<rparr>\<rparr>]\<rparr>"
    by (auto simp: scheduler_pick_next_task_def Let_def split: option.splits)
  from dispatch_queue [OF d]
  have c: "curr rq2 = curr ?rq1" and len: "length (queue rq2) = length (queue ?rq1)"
    and q2: "\<And>i. i < length (queue ?rq1) \<Longrightarrow> queue rq2 ! i =
        (if rolls_over p \<and> rollover_due (timer_get_ticks env) (queue ?rq1 ! i)
         then rollover (queue ?rq1 ! i) else queue ?rq1 ! i)"
    by simp_all
  have l1: "length (queue ?rq1) = length (queue rq)" by simp
  have q1: "queue ?rq1 ! i = (if i = curr rq \<and> updates_statistics p
              then update_task_statistics env (queue rq ! i) else queue rq ! i)"
    if "i < length (queue rq)" for i
    using that by (simp add: nth_list_update)
  have "queue rq' ! i = task_after_pick p env (i = curr rq) (i = nxt) (queue rq ! i)"
    if i: "i < length (queue rq)" for i
  proof -
    from i l1 have i1: "i < length (queue ?rq1)" by simp
    from i len l1 have i2: "i < length (queue rq2)" by simp
    have "queue rq' ! i = (if i = nxt then (queue rq2 ! i)
                      \<lparr>se := (se (queue rq2 ! i))\<lparr>exec_start := timer_get_ticks env\<rparr>\<rparr> else queue rq2 ! i)"
      using i2 by (auto simp: rq' nth_list_update)
    then show ?thesis
      unfolding q2 [OF i1] q1 [OF i] task_after_pick_def Let_def by auto
  qed
  moreover have "curr rq' = curr rq" using c rq' by simp
  moreover have "length (queue rq') = length (queue rq)" using len l1 rq' by simp
  moreover have "rq' = rq\<lparr>queue := (queue rq)[nxt := (queue rq ! nxt)
                      \<lparr>se := (se (queue rq ! nxt))\<lparr>exec_start := timer_get_ticks env\<rparr>\<rparr>]\<rparr>"
    if "\<not> updates_statistics p"
  proof -
    from that have "rq2 = rq"
      using d by (cases p) (auto simp: dispatch_def updates_statistics_def)
    with rq' show ?thesis by simp
  qed
  ultimately show ?thesis by blast
qed

theorem pick_next_task_frame_witness:
  "queue S4_after_pick ! 0
     = task_after_pick SCHEDULER_EDF (env_at 105) True True (queue S4_runqueue ! 0)
   \<and> queue S4_after_pick ! 1
     = task_after_pick SCHEDULER_EDF (env_at 105) False False (queue S4_runqueue ! 1)
   \<and> curr S4_after_pick = curr S4_runqueue
   \<and> S4_after_rr = S4_runqueue\<lparr>queue := (queue S4_runqueue)
        [1 := (queue S4_runqueue ! 1)
           \<lparr>se := (se (queue S4_runqueue ! 1))\<lparr>exec_start := timer_get_ticks (env_at 105)\<rparr>\<rparr>]\<rparr>"
proof -
  have len: "length (queue S4_runqueue) = 2" and c: "curr S4_runqueue = 0"
    by (simp_all add: S4_runqueue_def)
  note edf = pick_next_task_frame [OF S4_pick_edf]
  from edf have all: "\<forall>i<length (queue S4_runqueue). queue S4_after_pick ! i
      = task_after_pick SCHEDULER_EDF (env_at 105) (i = curr S4_runqueue) (i = 0) (queue S4_runqueue ! i)"
    by blast
  from all len c have "queue S4_after_pick ! 0
      = task_after_pick SCHEDULER_EDF (env_at 105) True True (queue S4_runqueue ! 0)"
    by force
  moreover from all len c have "queue S4_after_pick ! 1
      = task_after_pick SCHEDULER_EDF (env_at 105) False False (queue S4_runqueue ! 1)"
    by force
  moreover from edf have "curr S4_after_pick = curr S4_runqueue"
    by blast
  moreover have "\<not> updates_statistics SCHEDULER_RR"
    by (simp add: updates_statistics_def)
  with pick_next_task_frame [OF S4_pick_rr]
  have "S4_after_rr = S4_runqueue\<lparr>queue := (queue S4_runqueue)
        [1 := (queue S4_runqueue ! 1)
           \<lparr>se := (se (queue S4_runqueue ! 1))\<lparr>exec_start := timer_get_ticks (env_at 105)\<rparr>\<rparr>]\<rparr>"
    by blast
  ultimately show ?thesis by blast
qed

subsection \<open>C5\<close>

text \<open>
  Claim C5 says that in scenario S4 one pass of EDF rolls the task T over and returns T.
  The rollover and the comparison of deadlines are the two branches of one
  \<^verbatim>\<open>if ... else if\<close>: the pass that rolls T over does not compare it. With T linked after a
  running aperiodic task, the pass returns that task (position 0), not T (position 1).
\<close>

theorem edf_rollover_not_returned:
  "queue S4_runqueue ! 1 = S4_T
   \<and> fst (scheduler_edf (env_at 105) S4_runqueue) = Some 0
   \<and> fst (scheduler_edf (env_at 105) S4_runqueue) \<noteq> Some 1"
  by (simp add: sched_eval)

text \<open>
  Claim C5, amended: when a periodic task T that is not under analysis has
  \<^verbatim>\<open>executed\<close> set and \<^verbatim>\<open>next_period <= now()\<close>, one pass of EDF clears \<^verbatim>\<open>executed\<close> and adds
  \<^verbatim>\<open>period\<close> to \<^verbatim>\<open>deadline\<close> and to \<^verbatim>\<open>next_period\<close> (in S4: false, 250, 200); T is not the
  candidate of that pass, and when no other task is periodic the pass returns what CFS
  returns with \<^verbatim>\<open>skip_periodic = true\<close> on the updated run queue.
\<close>

theorem edf_rollover_deferred:
  assumes "i < length (queue rq)" and "rollover_due (timer_get_ticks env) (queue rq ! i)"
    and "scheduler_edf env rq = (nx, rq')"
  shows "queue rq' ! i = rollover (queue rq ! i)
    \<and> fst (snd (edf_loop (timer_get_ticks env) (for_each_from_queue rq)
                   (queue rq, None, UINT_MAX))) \<noteq> Some i
    \<and> ((\<forall>j<length (queue rq). j \<noteq> i \<longrightarrow> \<not> is_periodic_task (queue rq ! j)) \<longrightarrow>
          nx = scheduler_cfs rq' True)"
proof -
  obtain q' nx' dl' where l: "edf_loop (timer_get_ticks env) (for_each_from_queue rq)
             (queue rq, None, UINT_MAX) = (q', nx', dl')"
    by (metis prod_cases3)
  from assms(3) l have rq': "rq' = rq\<lparr>queue := q'\<rparr>"
    by (auto simp: scheduler_edf_def split: option.splits)
  from edf_loop_queue [OF distinct_for_each_from_queue l] assms(1,2)
  have a: "queue rq' ! i = rollover (queue rq ! i)"
    by (simp add: rq' set_for_each_from_queue)
  from edf_loop_candidate [OF distinct_for_each_from_queue l]
  have cand: "nx' = None \<or> (\<exists>j. nx' = Some j \<and> j < length (queue rq)
           \<and> is_periodic_task (queue rq ! j) \<and> \<not> executed (se (queue rq ! j)))"
    by (auto simp: set_for_each_from_queue)
  from assms(2) have ex: "executed (se (queue rq ! i))"
    by (simp add: rollover_due_def)
  with cand have b: "nx' \<noteq> Some i" by auto
  have c: "nx = scheduler_cfs rq' True"
    if "\<forall>j<length (queue rq). j \<noteq> i \<longrightarrow> \<not> is_periodic_task (queue rq ! j)"
  proof -
    from cand that ex have "nx' = None" by auto
    with assms(3) l rq' show ?thesis by (simp add: scheduler_edf_def)
  qed
  from a b c l show ?thesis by simp
qed

theorem edf_rollover_deferred_witness:
  "queue (snd (scheduler_edf (env_at 105) S4_runqueue)) ! 1
     = S4_T\<lparr>se := (se S4_T)\<lparr>executed := False, deadline := 250, next_period := 200\<rparr>\<rparr>
   \<and> fst (snd (edf_loop (timer_get_ticks (env_at 105)) (for_each_from_queue S4_runqueue)
                  (queue S4_runqueue, None, UINT_MAX))) \<noteq> Some 1
   \<and> fst (scheduler_edf (env_at 105) S4_runqueue)
       = scheduler_cfs (snd (scheduler_edf (env_at 105) S4_runqueue)) True"
proof -
  have len: "1 < length (queue S4_runqueue)"
    by (simp add: S4_runqueue_def)
  have pair: "scheduler_edf (env_at 105) S4_runqueue
      = (fst (scheduler_edf (env_at 105) S4_runqueue), snd (scheduler_edf (env_at 105) S4_runqueue))"
    by simp
  have others: "\<forall>j<length (queue S4_runqueue). j \<noteq> 1 \<longrightarrow> \<not> is_periodic_task (queue S4_runqueue ! j)"
    by (auto simp: S4_runqueue_def idle_task_def is_periodic_task_def less_Suc_eq)
  have roll: "rollover (queue S4_runqueue ! 1)
      = S4_T\<lparr>se := (se S4_T)\<lparr>executed := False, deadline := 250, next_period := 200\<rparr>\<rparr>"
    by (simp add: S4_runqueue_def S4_T_def idle_task_def rollover_def)
  from edf_rollover_deferred [OF len S4_due pair] others roll show ?thesis
    by simp
qed

subsection \<open>C6\<close>

text \<open>
  Claim C6 says that \<^verbatim>\<open>buddy_system_get_cached_space\<close> returns
  \<^verbatim>\<open>cache_size * PAGE_SIZE\<close>. The function adds that product once for every order: it
  returns \<^verbatim>\<open>MAX_BUDDYSYSTEM_GFP_ORDER * cache_size * PAGE_SIZE\<close> (modulo \<open>2 ^ 32\<close>). With
  14 orders, pages of 4096 bytes and one cached page it returns 57344, not 4096. The
  other two functions return \<^verbatim>\<open>size * PAGE_SIZE\<close> and the sum of
  \<^verbatim>\<open>nr_free[k] * 2^k * PAGE_SIZE\<close> over the orders, in 32-bit arithmetic.
\<close>

theorem cached_space_counts_every_order:
  "buddy_system_get_cached_space M PS inst = of_nat M * (free_pages_cache_size inst * PS)
   \<and> buddy_system_get_cached_space 14 4096 (raw_memory\<lparr>free_pages_cache_size := 1\<rparr>) = 57344
   \<and> free_pages_cache_size (raw_memory\<lparr>free_pages_cache_size := 1\<rparr>) * 4096 = 4096
   \<and> buddy_system_get_total_space PS inst = size_pgs inst * PS
   \<and> buddy_system_get_free_space M PS inst
       = (\<Sum>k<M. nr_free (free_area inst k) * 2 ^ k * PS)"
  by (simp add: cached_space_formula buddy_system_get_total_space_def
      buddy_system_get_free_space_def fold_free_space)

subsection \<open>C7\<close>

text \<open>
  Claim C7 says that every policy returns a task in state \<^verbatim>\<open>TASK_RUNNING\<close>, also when the
  task linked after the head is not running and has the extremal key. CFS and PRIORITY
  start from the task linked after the head without looking at its state, and AEDF never
  looks at the state: on \<open>stopped_first_runqueue\<close> the three return the stopped task at
  position 0.
\<close>

theorem policies_return_stopped_task:
  "state (queue stopped_first_runqueue ! 0) \<noteq> TASK_RUNNING
   \<and> scheduler_cfs stopped_first_runqueue False = Some 0
   \<and> scheduler_priority True stopped_first_runqueue False = Some 0
   \<and> scheduler_aedf stopped_first_runqueue = Some 0"
  by (simp add: sched_eval)

subsection \<open>C8\<close>

text \<open>
  Claim C8: \<^verbatim>\<open>bb_free_pages\<close> on a descriptor whose FREE flag is set, or whose ROOT flag is
  clear, panics with the message "Double deallocation in buddy system!"; and for a head
  returned by \<^verbatim>\<open>bb_alloc_pages\<close>, the first release returns and the second release of the
  same head panics with that message.
\<close>

theorem bb_free_pages_double_free_panics:
  "(bb_test_flag (pages inst page) FREE_PAGE \<or> \<not> bb_test_flag (pages inst page) ROOT_PAGE \<longrightarrow>
      bb_free_pages M inst page = Inl (Panic ''Double deallocation in buddy system!''))
   \<and> (bb_alloc_pages M inst0 ord = Inr (Some head, inst1) \<longrightarrow>
       (\<exists>inst2. bb_free_pages M inst1 head = Inr inst2
          \<and> bb_free_pages M inst2 head = Inl (Panic ''Double deallocation in buddy system!'')))"
proof (intro conjI impI)
  assume "bb_test_flag (pages inst page) FREE_PAGE \<or> \<not> bb_test_flag (pages inst page) ROOT_PAGE"
  then show "bb_free_pages M inst page = Inl (Panic ''Double deallocation in buddy system!'')"
    by (simp add: bb_free_pages_def)
next
  assume a: "bb_alloc_pages M inst0 ord = Inr (Some head, inst1)"
  show "\<exists>inst2. bb_free_pages M inst1 head = Inr inst2
          \<and> bb_free_pages M inst2 head = Inl (Panic ''Double deallocation in buddy system!'')"
    by (rule free_twice [OF bb_alloc_pages_head(1,2) [OF a]])
qed

theorem bb_free_pages_double_free_panics_witness:
  "bb_free_pages 4 S1_fresh 0 = Inl (Panic ''Double deallocation in buddy system!'')
   \<and> bb_free_pages 4 S1_fresh 1 = Inl (Panic ''Double deallocation in buddy system!'')
   \<and> bb_alloc_pages 4 S1_fresh 0 = Inr (Some 0, S1_after_alloc)
   \<and> bb_free_pages 4 S1_after_alloc 0 = Inr S1_after_free
   \<and> bb_free_pages 4 S1_after_free 0 = Inl (Panic ''Double deallocation in buddy system!'')"
proof -
  have "bb_free_pages 4 S1_fresh 0 = Inl (Panic ''Double deallocation in buddy system!'')"
    using bb_free_pages_double_free_panics [of S1_fresh 0 4] S1_fresh_flags(1) by blast
  moreover have "bb_free_pages 4 S1_fresh 1 = Inl (Panic ''Double deallocation in buddy system!'')"
    using bb_free_pages_double_free_panics [of S1_fresh 1 4] S1_fresh_flags(2) by blast
  moreover obtain inst2 where "bb_free_pages 4 S1_after_alloc 0 = Inr inst2"
    "bb_free_pages 4 inst2 0 = Inl (Panic ''Double deallocation in buddy system!'')"
    using bb_free_pages_double_free_panics [of S1_fresh 0 4 S1_fresh 0 0 S1_after_alloc] S1_alloc
    by blast
  ultimately show ?thesis
    using S1_alloc S1_free by simp
qed

subsection \<open>C9\<close>

text \<open>
  Claim C9: when no free list from the requested order up to the highest is non-empty,
  \<^verbatim>\<open>bb_alloc_pages\<close> returns \<^verbatim>\<open>NULL\<close> and the instance is unchanged, and whenever it returns
  \<^verbatim>\<open>NULL\<close> the instance is unchanged; when it returns a head, the head has FREE clear,
  ROOT set and the requested order, and, the blocks of the free lists being well formed
  before the call, its \<open>2 ^ order\<close> frames lie inside the instance and the frames after the
  head are interior descriptors.
\<close>

theorem bb_alloc_pages_exhaustion_atomic:
  "((\<forall>k. ord \<le> k \<and> k < M \<longrightarrow> free_list (free_area inst k) = []) \<longrightarrow>
      bb_alloc_pages M inst ord = Inr (None, inst))
   \<and> (bb_alloc_pages M inst ord = Inr (None, inst') \<longrightarrow> inst' = inst)
   \<and> (bb_alloc_pages M inst ord = Inr (Some page, inst') \<longrightarrow>
        \<not> bb_test_flag (pages inst' page) FREE_PAGE
        \<and> bb_test_flag (pages inst' page) ROOT_PAGE
        \<and> order (pages inst' page) = ord
        \<and> (free_blocks_ok M inst \<longrightarrow>
             page + 2 ^ ord \<le> unat (size_pgs inst')
             \<and> (\<forall>j. page < j \<and> j < page + 2 ^ ord \<longrightarrow> interior_page (pages inst' j))))"
  using bb_alloc_pages_exhausted [of ord M inst] bb_alloc_pages_null_unchanged [of M inst ord inst']
    bb_alloc_pages_head [of M inst ord page inst'] bb_alloc_pages_block [of M inst ord page inst']
  by blast

theorem bb_alloc_pages_exhaustion_atomic_witness:
  "bb_alloc_pages 4 S1_after_alloc 3 = Inr (None, S1_after_alloc)
   \<and> bb_alloc_pages 4 S1_fresh 1 = Inr (Some 0, S1_after_alloc1)
   \<and> \<not> bb_test_flag (pages S1_after_alloc1 0) FREE_PAGE
   \<and> bb_test_flag (pages S1_after_alloc1 0) ROOT_PAGE
   \<and> order (pages S1_after_alloc1 0) = 1
   \<and> 0 + 2 ^ 1 \<le> unat (size_pgs S1_after_alloc1)
   \<and> interior_page (pages S1_after_alloc1 1)"
proof -
  have "bb_alloc_pages 4 S1_after_alloc 3 = Inr (None, S1_after_alloc)"
    using bb_alloc_pages_exhaustion_atomic [of 3 4 S1_after_alloc] S1_after_alloc_no3 by blast
  moreover note success = bb_alloc_pages_exhaustion_atomic [of 1 4 S1_fresh S1_after_alloc1 0]
  have "\<not> bb_test_flag (pages S1_after_alloc1 0) FREE_PAGE
        \<and> bb_test_flag (pages S1_after_alloc1 0) ROOT_PAGE
        \<and> order (pages S1_after_alloc1 0) = 1"
    using success S1_alloc1 by blast
  moreover have "0 + 2 ^ 1 \<le> unat (size_pgs S1_after_alloc1)"
    using success S1_alloc1 S1_fresh_blocks_ok by blast
  moreover have "\<forall>j. 0 < j \<and> j < 0 + 2 ^ 1 \<longrightarrow> interior_page (pages S1_after_alloc1 j)"
    using success S1_alloc1 S1_fresh_blocks_ok by blast
  then have "interior_page (pages S1_after_alloc1 1)"
    by simp
  ultimately show ?thesis
    using S1_alloc1 by blast
qed

subsection \<open>C10\<close>

text \<open>
  Claim C10: when more than one task is linked in the run queue and no task other than
  \<^verbatim>\<open>curr\<close> is eligible (running, and not a periodic task to skip), Round-Robin returns
  \<^verbatim>\<open>NULL\<close>, whatever the state of \<^verbatim>\<open>curr\<close>, and \<^verbatim>\<open>scheduler_pick_next_task\<close> under RR
  panics on the empty selection.
\<close>

theorem rr_passes_over_curr:
  assumes "1 < length (queue rq)" and "curr rq < length (queue rq)"
    and "\<forall>i<length (queue rq). i \<noteq> curr rq \<longrightarrow>
           \<not> (state (queue rq ! i) = TASK_RUNNING \<and> \<not> (is_periodic_task (queue rq ! i) \<and> skip))"
  shows "scheduler_rr rq skip = None
    \<and> (\<not> skip \<longrightarrow> scheduler_pick_next_task SCHEDULER_RR env rq
           = Inl (Panic ''No valid task selected by the scheduling algorithm.''))"
proof -
  have "rr_loop (queue rq) skip (for_each_from_curr rq) = None"
  proof (rule rr_loop_None, intro allI impI)
    fix i assume "Entry i \<in> set (for_each_from_curr rq)"
    with assms(2) have "i < length (queue rq)" "i \<noteq> curr rq"
      by (auto simp: set_for_each_from_curr)
    with assms(3) show "\<not> (state (queue rq ! i) = TASK_RUNNING \<and> \<not> (is_periodic_task (queue rq ! i) \<and> skip))"
      by blast
  qed
  with assms(1,2) have r: "scheduler_rr rq skip = None"
    by (simp add: scheduler_rr_def list_head_size_eq)
  then show ?thesis
    by (auto simp: scheduler_pick_next_task_def dispatch_def updates_statistics_def)
qed

theorem rr_passes_over_curr_witness:
  "state (queue lone_runner_runqueue ! curr lone_runner_runqueue) = TASK_RUNNING
   \<and> scheduler_rr lone_runner_runqueue False = None
   \<and> scheduler_pick_next_task SCHEDULER_RR (env_at 0) lone_runner_runqueue
       = Inl (Panic ''No valid task selected by the scheduling algorithm.'')"
proof -
  have len: "1 < length (queue lone_runner_runqueue)"
    and c: "curr lone_runner_runqueue < length (queue lone_runner_runqueue)"
    by (simp_all add: lone_runner_runqueue_def)
  have others: "\<forall>i<length (queue lone_runner_runqueue). i \<noteq> curr lone_runner_runqueue \<longrightarrow>
      \<not> (state (queue lone_runner_runqueue ! i) = TASK_RUNNING
         \<and> \<not> (is_periodic_task (queue lone_runner_runqueue ! i) \<and> False))"
    by (auto simp: lone_runner_runqueue_def idle_task_def TASK_RUNNING_def less_Suc_eq)
  from rr_passes_over_curr [OF len c others, of "env_at 0"] lone_runner(1) show ?thesis
    by simp
qed

end
